theory Spec2Isabelle
  imports Main "HOL-Library.Sublist"
begin

section \<open>Data model\<close>

text \<open>
  A document value is a scalar (null, boolean, number, string, or one of the driver's
  extended types, all kept abstract in the type parameter), an ordered sequence, or a
  nested mapping. A Python \<open>dict\<close> is an association list that \<open>map_of\<close> reads.
\<close>

datatype 'a val = Atom 'a | Seq "'a val list" | Mapping "(string \<times> 'a val) list"

type_synonym 'a document = "(string \<times> 'a val) list"

text \<open>The exceptions the three operations can meet; \<open>str_error\<close> is Python's \<open>str(e)\<close>.\<close>

datatype error =
    KeyError string
  | TypeError string
  | DecodeError string
  | EncodeError string
  | ConnectionError string
  | WriteError string
  | OSError string

fun str_error :: "error \<Rightarrow> string" where
  "str_error (KeyError k) = [CHR 0x27] @ k @ [CHR 0x27]"
| "str_error (TypeError m) = m"
| "str_error (DecodeError m) = m"
| "str_error (EncodeError m) = m"
| "str_error (ConnectionError m) = m"
| "str_error (WriteError m) = m"
| "str_error (OSError m) = m"

text \<open>\<open>ReplaceOne({'_id': i}, doc, upsert=True)\<close>: the filter's identity and the replacement.\<close>

datatype 'a replace_one = ReplaceOne (filter_id: "'a val") (replacement: "'a val")

text \<open>
  What an operation does to the outside, in order: the URI handed to \<open>MongoClient\<close>, a
  line handed to the log callback, a \<open>bulk_write\<close> call on a destination collection.
\<close>

datatype 'a event =
    Connect string
  | Log string
  | BulkWrite string "'a replace_one list"

record ('a, 'h) state =
  handle :: 'h
  events :: "'a event list"

text \<open>
  The driver's \<open>bulk_write(ops, ordered=False)\<close> on the destination database is a
  parameter: from the destination and a collection name it gives the destination after the
  call and the exception it raised, if any.
\<close>

type_synonym ('a, 'h) driver = "'h \<Rightarrow> string \<Rightarrow> 'a replace_one list \<Rightarrow> 'h \<times> error option"

text \<open>
  What the source connection returns for a cleaned URI and a database name: the exception
  of \<open>list_collection_names\<close>, or the collections in listing order, each with the
  documents its \<open>find({})\<close> cursor yields.
\<close>

type_synonym 'a source = "string \<Rightarrow> string \<Rightarrow> error + (string \<times> 'a document list) list"

section \<open>Helpers of the class\<close>

definition batch_size :: nat where
  "batch_size = 1000"

definition log :: "string \<Rightarrow> ('a, 'h) state \<Rightarrow> ('a, 'h) state" where
  "log message s = s\<lparr>events := events s @ [Log message]\<rparr>"

definition connect :: "string \<Rightarrow> ('a, 'h) state \<Rightarrow> ('a, 'h) state" where
  "connect uri s = s\<lparr>events := events s @ [Connect uri]\<rparr>"

definition bulk_write ::
  "('a, 'h) driver \<Rightarrow> string \<Rightarrow> 'a replace_one list \<Rightarrow> ('a, 'h) state
     \<Rightarrow> error option \<times> ('a, 'h) state" where
  "bulk_write bw coll_name batch_ops s =
     (case bw (handle s) coll_name batch_ops of
        (h, r) \<Rightarrow> (r, s\<lparr>handle := h, events := events s @ [BulkWrite coll_name batch_ops]\<rparr>))"

text \<open>\<open>uri.replace('.:', ':')\<close>: every occurrence, left to right, without rescanning.\<close>

fun clean_uri :: "string \<Rightarrow> string" where
  "clean_uri (a # b # rest) =
     (if a = CHR ''.'' \<and> b = CHR '':'' then CHR '':'' # clean_uri rest
      else a # clean_uri (b # rest))"
| "clean_uri uri = uri"

text \<open>The decimal text of a count, as an f-string prints it.\<close>

definition digit :: "nat \<Rightarrow> char" where
  "digit d = ''0123456789'' ! d"

fun str_nat :: "nat \<Rightarrow> string" where
  "str_nat n =
     (if n < 10 then [digit n]
      else str_nat (n div 10) @ [digit (n mod 10)])"

declare str_nat.simps [simp del]

text \<open>
  \<open>doc['_id']\<close>: a mapping without the key raises \<open>KeyError\<close>, every other value raises
  \<open>TypeError\<close> (its text depends on the Python type, which the model does not tell apart).
\<close>

fun getitem :: "'a val \<Rightarrow> string \<Rightarrow> error + 'a val" where
  "getitem (Mapping kvs) k =
     (case map_of kvs k of None \<Rightarrow> Inl (KeyError k) | Some v \<Rightarrow> Inr v)"
| "getitem (Seq vs) k = Inl (TypeError ''list indices must be integers or slices, not str'')"
| "getitem (Atom a) k = Inl (TypeError ''object is not subscriptable'')"

text \<open>
  The expression \<open>ReplaceOne({'_id': doc['_id']}, doc, upsert=True)\<close>, which raises what the
  lookup raises.
\<close>

definition upsert_op :: "'a val \<Rightarrow> error + 'a replace_one" where
  "upsert_op doc =
     (case getitem doc ''_id'' of Inl e \<Rightarrow> Inl e | Inr i \<Rightarrow> Inr (ReplaceOne i doc))"

section \<open>direct_clone\<close>

text \<open>
  The loop over the cursor (lines 49 to 57), with the pending batch and the running count
  as arguments. An exception leaves the loop with the state reached so far.
\<close>

fun clone_docs ::
  "('a, 'h) driver \<Rightarrow> nat \<Rightarrow> string \<Rightarrow> 'a document list \<Rightarrow> 'a replace_one list \<Rightarrow> nat
     \<Rightarrow> ('a, 'h) state \<Rightarrow> (error + 'a replace_one list \<times> nat) \<times> ('a, 'h) state" where
  "clone_docs bw T coll_name [] batch_ops count s = (Inr (batch_ops, count), s)"
| "clone_docs bw T coll_name (doc # cursor) batch_ops count s =
     (case upsert_op (Mapping doc) of
        Inl e \<Rightarrow> (Inl e, s)
      | Inr op \<Rightarrow>
          if length (batch_ops @ [op]) \<ge> T then
            (case bulk_write bw coll_name (batch_ops @ [op]) s of
               (Some e, s') \<Rightarrow> (Inl e, s')
             | (None, s') \<Rightarrow>
                 clone_docs bw T coll_name cursor [] (count + length (batch_ops @ [op]))
                   (log (''  Processed '' @ str_nat (count + length (batch_ops @ [op]))
                           @ '' documents (upserts)...'') s'))
          else clone_docs bw T coll_name cursor (batch_ops @ [op]) count s)"

text \<open>The flush of what is left when the stream ends (lines 59 to 62 and 137 to 140).\<close>

definition flush_rest ::
  "('a, 'h) driver \<Rightarrow> string \<Rightarrow> 'a replace_one list \<Rightarrow> nat \<Rightarrow> ('a, 'h) state
     \<Rightarrow> error option \<times> ('a, 'h) state" where
  "flush_rest bw coll_name batch_ops count s =
     (if batch_ops \<noteq> [] then
        (case bulk_write bw coll_name batch_ops s of
           (Some e, s') \<Rightarrow> (Some e, s')
         | (None, s') \<Rightarrow>
             (None, log (''  Finished '' @ coll_name @ '' with ''
                           @ str_nat (count + length batch_ops) @ '' documents.'') s'))
      else (None, s))"

definition clone_collection ::
  "('a, 'h) driver \<Rightarrow> nat \<Rightarrow> string \<Rightarrow> 'a document list \<Rightarrow> ('a, 'h) state
     \<Rightarrow> error option \<times> ('a, 'h) state" where
  "clone_collection bw T coll_name cursor s =
     (case clone_docs bw T coll_name cursor [] 0 (log (''Cloning collection: '' @ coll_name) s) of
        (Inl e, s') \<Rightarrow> (Some e, s')
      | (Inr (batch_ops, count), s') \<Rightarrow> flush_rest bw coll_name batch_ops count s')"

fun clone_collections ::
  "('a, 'h) driver \<Rightarrow> nat \<Rightarrow> (string \<times> 'a document list) list \<Rightarrow> ('a, 'h) state
     \<Rightarrow> error option \<times> ('a, 'h) state" where
  "clone_collections bw T [] s = (None, s)"
| "clone_collections bw T ((coll_name, cursor) # collections) s =
     (if prefix ''system.'' coll_name then clone_collections bw T collections s
      else
        (case clone_collection bw T coll_name cursor s of
           (Some e, s') \<Rightarrow> (Some e, s')
         | (None, s') \<Rightarrow> clone_collections bw T collections s'))"

text \<open>The body of the \<open>try\<close>: an exception is \<open>Inl\<close>, a \<open>return\<close> is \<open>Inr\<close>.\<close>

definition direct_clone_body ::
  "('a, 'h) driver \<Rightarrow> 'a source \<Rightarrow> nat \<Rightarrow> string \<Rightarrow> string \<Rightarrow> string \<Rightarrow> string
     \<Rightarrow> ('a, 'h) state \<Rightarrow> (error + nat) \<times> ('a, 'h) state" where
  "direct_clone_body bw source T src_uri src_db_name dst_uri dst_db_name s =
     (let s1 = connect (clean_uri dst_uri) (connect (clean_uri src_uri) s);
          s2 = log (''Starting direct clone from '' @ src_db_name @ '' to '' @ dst_db_name) s1
      in case source (clean_uri src_uri) src_db_name of
           Inl e \<Rightarrow> (Inl e, s2)
         | Inr collections \<Rightarrow>
             (case clone_collections bw T collections s2 of
                (Some e, s3) \<Rightarrow> (Inl e, s3)
              | (None, s3) \<Rightarrow> (Inr 0, log ''Direct clone completed successfully.'' s3)))"

text \<open>The \<open>except Exception\<close> boundary shared by the three operations.\<close>

definition boundary :: "(error + nat) \<times> ('a, 'h) state \<Rightarrow> nat \<times> ('a, 'h) state" where
  "boundary r =
     (case r of
        (Inr status, s) \<Rightarrow> (status, s)
      | (Inl e, s) \<Rightarrow> (1, log (''ERROR: '' @ str_error e) s))"

definition direct_clone ::
  "('a, 'h) driver \<Rightarrow> 'a source \<Rightarrow> nat \<Rightarrow> string \<Rightarrow> string \<Rightarrow> string \<Rightarrow> string
     \<Rightarrow> ('a, 'h) state \<Rightarrow> nat \<times> ('a, 'h) state" where
  "direct_clone bw source T src_uri src_db_name dst_uri dst_db_name s =
     boundary (direct_clone_body bw source T src_uri src_db_name dst_uri dst_db_name s)"

section \<open>dump_to_file\<close>

text \<open>
  The file system as the two file operations see it: a path is an existing directory with
  its entries in \<open>os.listdir\<close> order, each a text file given by its lines, or it does not
  exist. Every \<open>f.write(... + '\n')\<close> of the dump adds one line. Opening a name with a
  \<open>/\<close> in it, which no entry of the directory can carry, raises.
\<close>

type_synonym dir = "(string \<times> string list) list"

type_synonym fs = "string \<Rightarrow> dir option"

fun update_file :: "string \<Rightarrow> string list \<Rightarrow> dir \<Rightarrow> dir" where
  "update_file name ls [] = [(name, ls)]"
| "update_file name ls ((n, old) # d) =
     (if n = name then (n, ls) # d else (n, old) # update_file name ls d)"

definition makedirs :: "string \<Rightarrow> ('a, fs) state \<Rightarrow> ('a, fs) state" where
  "makedirs path s = s\<lparr>handle := (handle s)(path := Some [])\<rparr>"

definition write_file :: "string \<Rightarrow> string \<Rightarrow> string list \<Rightarrow> ('a, fs) state \<Rightarrow> ('a, fs) state" where
  "write_file path name ls s =
     (case handle s path of
        None \<Rightarrow> s
      | Some d \<Rightarrow> s\<lparr>handle := (handle s)(path := Some (update_file name ls d))\<rparr>)"






section \<open>restore_from_file\<close>

text \<open>\<open>not line.strip()\<close>: the line holds only characters that \<open>str.isspace\<close> accepts.\<close>

definition isspace :: "char \<Rightarrow> bool" where
  "isspace c = (of_char c \<in> {9, 10, 11, 12, 13, 28, 29, 30, 31, 32, 133, 160 :: nat})"

definition blank :: "string \<Rightarrow> bool" where
  "blank line = list_all isspace line"

text \<open>The loop over the lines of one file (lines 124 to 135).\<close>

fun restore_lines ::
  "('a, 'h) driver \<Rightarrow> (string \<Rightarrow> error + 'a val) \<Rightarrow> nat \<Rightarrow> string \<Rightarrow> string list
     \<Rightarrow> 'a replace_one list \<Rightarrow> nat \<Rightarrow> ('a, 'h) state
     \<Rightarrow> (error + 'a replace_one list \<times> nat) \<times> ('a, 'h) state" where
  "restore_lines bw dec T coll_name [] batch_ops count s = (Inr (batch_ops, count), s)"
| "restore_lines bw dec T coll_name (line # f) batch_ops count s =
     (if blank line then restore_lines bw dec T coll_name f batch_ops count s
      else
        (case dec line of
           Inl e \<Rightarrow> (Inl e, s)
         | Inr doc \<Rightarrow>
             (case upsert_op doc of
                Inl e \<Rightarrow> (Inl e, s)
              | Inr op \<Rightarrow>
                  if length (batch_ops @ [op]) \<ge> T then
                    (case bulk_write bw coll_name (batch_ops @ [op]) s of
                       (Some e, s') \<Rightarrow> (Inl e, s')
                     | (None, s') \<Rightarrow>
                         restore_lines bw dec T coll_name f [] (count + length (batch_ops @ [op]))
                           (log (''  Imported '' @ str_nat (count + length (batch_ops @ [op]))
                                   @ '' documents (upserts)...'') s'))
                  else restore_lines bw dec T coll_name f (batch_ops @ [op]) count s)))"

definition restore_file ::
  "('a, 'h) driver \<Rightarrow> (string \<Rightarrow> error + 'a val) \<Rightarrow> nat \<Rightarrow> string \<Rightarrow> string list
     \<Rightarrow> ('a, 'h) state \<Rightarrow> error option \<times> ('a, 'h) state" where
  "restore_file bw dec T filename f s =
     (let coll_name = take (length filename - 5) filename in
      case restore_lines bw dec T coll_name f [] 0 (log (''Importing collection: '' @ coll_name) s) of
        (Inl e, s') \<Rightarrow> (Some e, s')
      | (Inr (batch_ops, count), s') \<Rightarrow> flush_rest bw coll_name batch_ops count s')"

fun restore_files ::
  "('a, 'h) driver \<Rightarrow> (string \<Rightarrow> error + 'a val) \<Rightarrow> nat \<Rightarrow> dir \<Rightarrow> ('a, 'h) state
     \<Rightarrow> error option \<times> ('a, 'h) state" where
  "restore_files bw dec T [] s = (None, s)"
| "restore_files bw dec T ((filename, f) # listdir) s =
     (if suffix ''.json'' filename then
        (case restore_file bw dec T filename f s of
           (Some e, s') \<Rightarrow> (Some e, s')
         | (None, s') \<Rightarrow> restore_files bw dec T listdir s')
      else restore_files bw dec T listdir s)"

definition restore_from_file_body ::
  "('a, 'h) driver \<Rightarrow> (string \<Rightarrow> error + 'a val) \<Rightarrow> fs \<Rightarrow> nat \<Rightarrow> string \<Rightarrow> string \<Rightarrow> string
     \<Rightarrow> ('a, 'h) state \<Rightarrow> (error + nat) \<times> ('a, 'h) state" where
  "restore_from_file_body bw dec files T uri db_name input_path s =
     (let s1 = connect (clean_uri uri) s;
          s2 = log (''Restoring database '' @ db_name @ '' from '' @ input_path) s1
      in case files input_path of
           None \<Rightarrow> (Inr 1, log (''ERROR: '' @ input_path @ '' is not a directory.'') s2)
         | Some listdir \<Rightarrow>
             (case restore_files bw dec T listdir s2 of
                (Some e, s3) \<Rightarrow> (Inl e, s3)
              | (None, s3) \<Rightarrow> (Inr 0, log ''Restore completed successfully.'' s3)))"

definition restore_from_file ::
  "('a, 'h) driver \<Rightarrow> (string \<Rightarrow> error + 'a val) \<Rightarrow> fs \<Rightarrow> nat \<Rightarrow> string \<Rightarrow> string \<Rightarrow> string
     \<Rightarrow> ('a, 'h) state \<Rightarrow> nat \<times> ('a, 'h) state" where
  "restore_from_file bw dec files T uri db_name input_path s =
     boundary (restore_from_file_body bw dec files T uri db_name input_path s)"

section \<open>Observations on a run\<close>

fun log_lines :: "'a event list \<Rightarrow> string list" where
  "log_lines [] = []"
| "log_lines (Log message # evs) = message # log_lines evs"
| "log_lines (ev # evs) = log_lines evs"

fun writes :: "'a event list \<Rightarrow> (string \<times> 'a replace_one list) list" where
  "writes [] = []"
| "writes (BulkWrite coll_name batch_ops # evs) = (coll_name, batch_ops) # writes evs"
| "writes (ev # evs) = writes evs"

fun connections :: "'a event list \<Rightarrow> string list" where
  "connections [] = []"
| "connections (Connect uri # evs) = uri # connections evs"
| "connections (ev # evs) = connections evs"

text \<open>The destination that a sequence of events leaves behind, from the destination it started on.\<close>

fun replay :: "('a, 'h) driver \<Rightarrow> 'h \<Rightarrow> 'a event list \<Rightarrow> 'h" where
  "replay bw h [] = h"
| "replay bw h (BulkWrite coll_name batch_ops # evs) = replay bw (fst (bw h coll_name batch_ops)) evs"
| "replay bw h (ev # evs) = replay bw h evs"

definition never_raises :: "('a, 'h) driver \<Rightarrow> bool" where
  "never_raises bw = (\<forall>h coll_name batch_ops. snd (bw h coll_name batch_ops) = None)"

text \<open>A stream of pending operations cut at the threshold: the full batches, and what is left.\<close>

function full_chunks :: "nat \<Rightarrow> 'b list \<Rightarrow> 'b list list" where
  "full_chunks T xs =
     (if T = 0 \<or> length xs < T then [] else take T xs # full_chunks T (drop T xs))"
  by pat_completeness auto
termination
  by (relation "measure (\<lambda>(T, xs). length xs)") auto

function remainder :: "nat \<Rightarrow> 'b list \<Rightarrow> 'b list" where
  "remainder T xs =
     (if T = 0 \<or> length xs < T then xs else remainder T (drop T xs))"
  by pat_completeness auto
termination
  by (relation "measure (\<lambda>(T, xs). length xs)") auto

declare full_chunks.simps [simp del] remainder.simps [simp del]

definition progress :: "string \<Rightarrow> nat \<Rightarrow> string" where
  "progress verb n = ''  '' @ verb @ '' '' @ str_nat n @ '' documents (upserts)...''"

definition finished :: "string \<Rightarrow> nat \<Rightarrow> string" where
  "finished coll_name n = ''  Finished '' @ coll_name @ '' with '' @ str_nat n @ '' documents.''"

text \<open>The events of the threshold flushes of one collection, and of the flush at its end.\<close>

fun flush_events :: "string \<Rightarrow> string \<Rightarrow> nat \<Rightarrow> 'a replace_one list list \<Rightarrow> 'a event list" where
  "flush_events verb coll_name n [] = []"
| "flush_events verb coll_name n (b # bs) =
     BulkWrite coll_name b # Log (progress verb (n + length b))
       # flush_events verb coll_name (n + length b) bs"

definition rest_events :: "string \<Rightarrow> nat \<Rightarrow> 'a replace_one list \<Rightarrow> 'a event list" where
  "rest_events coll_name n b =
     (if b = [] then [] else [BulkWrite coll_name b, Log (finished coll_name (n + length b))])"

definition collection_events :: "string \<Rightarrow> nat \<Rightarrow> string \<Rightarrow> 'a replace_one list \<Rightarrow> 'a event list" where
  "collection_events verb T coll_name ops =
     flush_events verb coll_name 0 (full_chunks T ops)
       @ rest_events coll_name (T * length (full_chunks T ops)) (remainder T ops)"

text \<open>
  What a run may emit while it works on the collections \<open>C\<close>: no connection, no error
  line, and batches that are not empty, within the threshold, and made of operations keyed
  by the identity of their own document.
\<close>

definition keyed :: "'a replace_one \<Rightarrow> bool" where
  "keyed op = (upsert_op (replacement op) = Inr op)"

fun ok_event :: "nat \<Rightarrow> string set \<Rightarrow> 'a event \<Rightarrow> bool" where
  "ok_event T C (Connect uri) = False"
| "ok_event T C (Log message) = (\<not> prefix ''ERROR: '' message)"
| "ok_event T C (BulkWrite coll_name batch_ops) =
     (coll_name \<in> C \<and> batch_ops \<noteq> [] \<and> length batch_ops \<le> max 1 T
        \<and> list_all keyed batch_ops)"

section \<open>The destination in memory\<close>

text \<open>
  Modelled from the spec: the destination server, which is not part of the repository. A
  collection is a set of documents keyed by identity; an upsert "inserts if the identity
  is absent, replaces if present"; a batch applies its operations and, made of upserts
  only, reports no failure.
\<close>

type_synonym 'a collection = "'a val \<rightharpoonup> 'a val"

type_synonym 'a database = "string \<Rightarrow> 'a collection"

definition upsert :: "'a replace_one \<Rightarrow> 'a collection \<Rightarrow> 'a collection" where
  "upsert op coll = coll(filter_id op \<mapsto> replacement op)"

definition mem_bulk_write :: "('a, 'a database) driver" where
  "mem_bulk_write db coll_name batch_ops =
     (db(coll_name := fold upsert batch_ops (db coll_name)), None)"

section \<open>Definitions for the statements\<close>

text \<open>What a run added to the events, and the collection name a dump file name stands for.\<close>

definition emitted :: "('a, 'h) state \<Rightarrow> ('a, 'h) state \<Rightarrow> 'a event list" where
  "emitted s t = drop (length (events s)) (events t)"

definition coll_of :: "string \<Rightarrow> string" where
  "coll_of filename = take (length filename - 5) filename"

text \<open>
  A run from \<open>s\<close> to \<open>t\<close> that only added events, all of them allowed, and whose destination
  is the one its \<open>bulk_write\<close> calls built, in order.
\<close>

definition extends ::
  "('a, 'h) driver \<Rightarrow> nat \<Rightarrow> string set \<Rightarrow> ('a, 'h) state \<Rightarrow> ('a, 'h) state \<Rightarrow> bool" where
  "extends bw T C s t =
     (\<exists>E. events t = events s @ E \<and> handle t = replay bw (handle s) E \<and> list_all (ok_event T C) E)"


text \<open>The events every run starts with, and the error lines among the lines of a log.\<close>

definition start_clone :: "string \<Rightarrow> string \<Rightarrow> string \<Rightarrow> string \<Rightarrow> 'a event list" where
  "start_clone src_uri src_db_name dst_uri dst_db_name =
     [Connect (clean_uri src_uri), Connect (clean_uri dst_uri),
      Log (''Starting direct clone from '' @ src_db_name @ '' to '' @ dst_db_name)]"

definition start_dump :: "string \<Rightarrow> string \<Rightarrow> string \<Rightarrow> 'a event list" where
  "start_dump uri db_name output_path =
     [Connect (clean_uri uri), Log (''Dumping database '' @ db_name @ '' to '' @ output_path)]"

definition start_restore :: "string \<Rightarrow> string \<Rightarrow> string \<Rightarrow> 'a event list" where
  "start_restore uri db_name input_path =
     [Connect (clean_uri uri), Log (''Restoring database '' @ db_name @ '' from '' @ input_path)]"

definition error_lines :: "string list \<Rightarrow> string list" where
  "error_lines L = filter (prefix ''ERROR: '') L"


section \<open>Concrete data\<close>

text \<open>
  The scalar kinds of the specification: null, boolean, integer, float (kept as the pair
  of its significand and exponent, not computed with), string, and the extended types
  timestamp and binary. Then the scenario of the specification: a source database with the
  collection \<open>users\<close> of two documents, beside a system collection.
\<close>

datatype scalar =
    Null
  | Boolean bool
  | Integer int
  | Float int int
  | String string
  | Timestamp int
  | Binary string

definition empty_db :: "'a database" where
  "empty_db = (\<lambda>coll_name. Map.empty)"

definition fresh :: "'h \<Rightarrow> ('a, 'h) state" where
  "fresh h = \<lparr>handle = h, events = []\<rparr>"

definition users :: "scalar document list" where
  "users =
     [[(''_id'', Atom (Integer 1)), (''name'', Atom (String ''A''))],
      [(''_id'', Atom (Integer 2)), (''name'', Atom (String ''B''))]]"

definition shop :: "scalar source" where
  "shop uri db_name =
     (if uri = ''mongodb://10.0.0.15:27017'' \<and> db_name = ''shop''
      then Inr [(''system.views'', [[(''_id'', Atom (String ''shop.v''))]]), (''users'', users)]
      else Inl (ConnectionError ''No servers found yet''))"

text \<open>A dump directory beside a path that does not exist, and a decoder for its lines.\<close>

definition backup :: fs where
  "backup path =
     (if path = ''/backup/shop''
      then Some [(''users.json'', [''{_id: 1, name: A}'', '' '', ''{_id: 2, name: B}'']),
                 (''notes.txt'', [''not a dump''])]
      else if path = ''/backup/garbled''
      then Some [(''staff.json'', [''{_id: 1, name: A}'']),
                 (''users.json'', [''{_id: 2, name: B}'', ''{_id: 3, na''])]
      else if path = ''/backup/anonymous''
      then Some [(''users.json'', [''{_id: 1, name: A}'', ''{name: C}''])]
      else if path = ''/backup/system''
      then Some [(''system.users.json'', [''{_id: 1, name: A}''])]
      else None)"

definition toy_dec :: "string \<Rightarrow> error + scalar val" where
  "toy_dec line =
     (if line = ''{_id: 1, name: A}'' then Inr (Mapping (users ! 0))
      else if line = ''{_id: 2, name: B}'' then Inr (Mapping (users ! 1))
      else if line = ''{name: C}'' then Inr (Mapping [(''name'', Atom (String ''C''))])
      else Inl (DecodeError (''Expecting value: '' @ line)))"

text \<open>A source whose second document of \<open>users\<close> has no identity field.\<close>

definition anonymous_shop :: "scalar source" where
  "anonymous_shop uri db_name =
     Inr [(''users'', [users ! 0, [(''name'', Atom (String ''C''))], users ! 1])]"

text \<open>A directory listing with the blank lines of its files taken out.\<close>

definition without_blank_lines :: "fs \<Rightarrow> fs" where
  "without_blank_lines files path =
     map_option (map (\<lambda>(name, f). (name, filter (\<lambda>line. \<not> blank line) f))) (files path)"

text \<open>The directory that holds the first file of \<open>/backup/garbled\<close> only.\<close>

definition staff_only :: fs where
  "staff_only path = Some [(''staff.json'', [''{_id: 1, name: A}''])]"

section \<open>Definitions for the batching statements\<close>

text \<open>The batches a stream of operations is flushed in, and the sizes of the flushes of a run.\<close>

definition batches :: "nat \<Rightarrow> 'b list \<Rightarrow> 'b list list" where
  "batches T xs = full_chunks T xs @ (if remainder T xs = [] then [] else [remainder T xs])"

definition flush_sizes :: "'a event list \<Rightarrow> nat list" where
  "flush_sizes E = map (\<lambda>(coll_name, batch_ops). length batch_ops) (writes E)"

text \<open>The events of one collection of \<open>direct_clone\<close>, and of one file of \<open>restore_from_file\<close>.\<close>

definition cloning :: "nat \<Rightarrow> string \<times> 'a replace_one list \<Rightarrow> 'a event list" where
  "cloning T cu =
     Log (''Cloning collection: '' @ fst cu) # collection_events ''Processed'' T (fst cu) (snd cu)"


text \<open>The operations of the documents of a cursor, when each of them has its identity.\<close>

definition upserts :: "'a val list \<Rightarrow> 'a replace_one list \<Rightarrow> bool" where
  "upserts docs us = (map upsert_op docs = map Inr us)"

text \<open>A collection of \<open>n\<close> documents that hold their identity and nothing else.\<close>

definition numbered :: "nat \<Rightarrow> scalar document list" where
  "numbered n = map (\<lambda>i. [(''_id'', Atom (Integer (int i)))]) [0..<n]"

text \<open>
  The collections \<open>direct_clone\<close> and \<open>dump_to_file\<close> transfer, and the collections a
  directory stands for in \<open>restore_from_file\<close>, each with the lines that are not blank.
\<close>

definition transferred :: "(string \<times> 'b) list \<Rightarrow> (string \<times> 'b) list" where
  "transferred collections = filter (\<lambda>(coll_name, cursor). \<not> prefix ''system.'' coll_name) collections"


text \<open>
  Batches sent one after the other, each followed at once by its message; and the messages
  of a collection of \<open>n\<close> documents: one per threshold flush, with the count reached, and
  the one of the last flush when documents are left.
\<close>

definition flushed :: "string \<Rightarrow> 'a replace_one list list \<Rightarrow> string list \<Rightarrow> 'a event list" where
  "flushed coll_name bs ms =
     concat (map (\<lambda>(b, message). [BulkWrite coll_name b, Log message]) (zip bs ms))"

definition messages :: "string \<Rightarrow> nat \<Rightarrow> string \<Rightarrow> nat \<Rightarrow> string list" where
  "messages verb T coll_name n =
     map (\<lambda>k. progress verb (k * T)) [1..<Suc (n div T)]
       @ (if n mod T = 0 then [] else [finished coll_name n])"

section \<open>Definitions for the dump and restore statements\<close>



section \<open>The serialization codec\<close>

text \<open>
  Modelled from the spec: the serialization codec. The code calls \<open>json.dumps\<close> with
  \<open>json_util.default\<close> and \<open>json.loads\<close> with \<open>json_util.object_hook\<close>, library functions that
  are not part of the repository. The specification asks for: one document encoded to one
  line of text, extended types tagged in an envelope with a reserved key, a decoder that is
  the inverse and answers a malformed line with a decode error. The text below is made of
  printable characters only: numbers in decimal closed by \<open>;\<close>, strings as their length and
  character codes, sequences and mappings as their length and members between brackets,
  and \<open>{$date...}\<close>, \<open>{$binary...}\<close>, \<open>{$float...}\<close> around the extended types.
\<close>

definition is_digit :: "char \<Rightarrow> bool" where
  "is_digit c = (c \<in> set ''0123456789'')"

definition digit_val :: "char \<Rightarrow> nat" where
  "digit_val c = of_char c - 48"

definition put_nat :: "nat \<Rightarrow> string" where
  "put_nat n = str_nat n @ '';''"

definition get_nat :: "string \<Rightarrow> (nat \<times> string) option" where
  "get_nat s =
     (case dropWhile is_digit s of
        [] \<Rightarrow> None
      | c # rest \<Rightarrow>
          if c = CHR '';'' \<and> takeWhile is_digit s \<noteq> []
          then Some (fold (\<lambda>d n. 10 * n + digit_val d) (takeWhile is_digit s) 0, rest)
          else None)"

definition put_int :: "int \<Rightarrow> string" where
  "put_int i = (if i < 0 then CHR ''-'' # put_nat (nat (- i)) else CHR ''+'' # put_nat (nat i))"

fun get_int :: "string \<Rightarrow> (int \<times> string) option" where
  "get_int [] = None"
| "get_int (c # s) =
     (if c = CHR ''-'' then map_option (\<lambda>(n, r). (- int n, r)) (get_nat s)
      else if c = CHR ''+'' then map_option (\<lambda>(n, r). (int n, r)) (get_nat s)
      else None)"

definition put_str :: "string \<Rightarrow> string" where
  "put_str s = put_nat (length s) @ concat (map (\<lambda>c. put_nat (of_char c)) s)"

fun get_chars :: "nat \<Rightarrow> string \<Rightarrow> (string \<times> string) option" where
  "get_chars 0 s = Some ([], s)"
| "get_chars (Suc k) s =
     (case get_nat s of
        None \<Rightarrow> None
      | Some (n, r) \<Rightarrow>
          if n < 256 then
            (case get_chars k r of None \<Rightarrow> None | Some (cs, r') \<Rightarrow> Some (char_of n # cs, r'))
          else None)"

definition get_str :: "string \<Rightarrow> (string \<times> string) option" where
  "get_str s = (case get_nat s of None \<Rightarrow> None | Some (k, r) \<Rightarrow> get_chars k r)"

definition strip :: "string \<Rightarrow> string \<Rightarrow> string option" where
  "strip p s = (if prefix p s then Some (drop (length p) s) else None)"










section \<open>Lemmas\<close>

subsection \<open>Steps\<close>

lemma log_simps [simp]:
  "events (log m s) = events s @ [Log m]" "handle (log m s) = handle s"
  by (simp_all add: log_def)

lemma connect_simps [simp]:
  "events (connect u s) = events s @ [Connect u]" "handle (connect u s) = handle s"
  by (simp_all add: connect_def)

lemma bulk_write_D:
  assumes "bulk_write bw c ops s = (r, t)"
  shows "events t = events s @ [BulkWrite c ops]"
    and "handle t = fst (bw (handle s) c ops)"
    and "r = snd (bw (handle s) c ops)"
  using assms by (auto simp: bulk_write_def split: prod.splits)

lemma log_lines_append [simp]: "log_lines (xs @ ys) = log_lines xs @ log_lines ys"
  by (induction xs rule: log_lines.induct) auto

lemma writes_append [simp]: "writes (xs @ ys) = writes xs @ writes ys"
  by (induction xs rule: writes.induct) auto

lemma connections_append [simp]: "connections (xs @ ys) = connections xs @ connections ys"
  by (induction xs rule: connections.induct) auto

lemma replay_append [simp]: "replay bw h (xs @ ys) = replay bw (replay bw h xs) ys"
  by (induction bw h xs rule: replay.induct) auto

subsection \<open>Chunks\<close>

lemma full_chunks_short: "length xs < T \<Longrightarrow> full_chunks T xs = []"
  by (simp add: full_chunks.simps)

lemma remainder_short: "length xs < T \<Longrightarrow> remainder T xs = xs"
  by (simp add: remainder.simps)

lemma full_chunks_step:
  "0 < T \<Longrightarrow> length xs = T \<Longrightarrow> full_chunks T (xs @ ys) = xs # full_chunks T ys"
  by (subst full_chunks.simps) simp

lemma remainder_step:
  "0 < T \<Longrightarrow> length xs = T \<Longrightarrow> remainder T (xs @ ys) = remainder T ys"
  by (subst remainder.simps) simp

lemma full_chunks_length: "b \<in> set (full_chunks T xs) \<Longrightarrow> length b = T"
proof (induction T xs rule: full_chunks.induct)
  case (1 T xs)
  then show ?case
    by (subst (asm) (2) full_chunks.simps) (auto split: if_splits)
qed

lemma remainder_length: "0 < T \<Longrightarrow> length (remainder T xs) < T"
proof (induction T xs rule: remainder.induct)
  case (1 T xs)
  then show ?case
    by (subst remainder.simps) auto
qed

lemma chunks_concat: "concat (full_chunks T xs) @ remainder T xs = xs"
proof (induction T xs rule: full_chunks.induct)
  case (1 T xs)
  show ?case
  proof (cases "T = 0 \<or> length xs < T")
    case True
    then show ?thesis by (simp add: full_chunks.simps remainder.simps)
  next
    case False
    then have "concat (full_chunks T (drop T xs)) @ remainder T (drop T xs) = drop T xs"
      using 1 by simp
    then show ?thesis using False
      by (subst full_chunks.simps, subst remainder.simps) simp
  qed
qed

subsection \<open>What every run emits\<close>

lemma not_error_line [simp]:
  "\<not> prefix ''ERROR: '' (progress ''Processed'' n)"
  "\<not> prefix ''ERROR: '' (progress ''Imported'' n)"
  "\<not> prefix ''ERROR: '' (finished c n)"
  "\<not> prefix ''ERROR: '' (''Cloning collection: '' @ c)"
  "\<not> prefix ''ERROR: '' (''Importing collection: '' @ c)"
  "\<not> prefix ''ERROR: '' (''Exporting collection: '' @ c)"
  by (simp_all add: progress_def finished_def)

lemma upsert_op_keyed: "upsert_op doc = Inr op \<Longrightarrow> keyed op"
  by (auto simp: upsert_op_def keyed_def split: sum.splits)

lemma extends_refl [simp]: "extends bw T C s s"
  by (simp add: extends_def)

lemma extends_trans: "extends bw T C s t \<Longrightarrow> extends bw T C t u \<Longrightarrow> extends bw T C s u"
  unfolding extends_def by (elim exE conjE, rule_tac x="E @ Ea" in exI) simp

lemma extends_log: "\<not> prefix ''ERROR: '' m \<Longrightarrow> extends bw T C s (log m s)"
  unfolding extends_def by (rule exI [of _ "[Log m]"]) simp

lemma extends_bulk_write:
  assumes "bulk_write bw c ops s = (r, t)" "c \<in> C" "ops \<noteq> []" "length ops \<le> max 1 T" "list_all keyed ops"
  shows "extends bw T C s t"
  unfolding extends_def using bulk_write_D [OF assms(1)] assms(2-)
  by (intro exI [of _ "[BulkWrite c ops]"]) simp

lemma extends_mono:
  fixes s :: "('a, 'h) state"
  assumes a: "extends bw T C s t" and m: "C \<subseteq> D"
  shows "extends bw T D s t"
proof -
  have "ok_event T C ev \<Longrightarrow> ok_event T D ev" for ev :: "'a event"
    using m by (cases ev) auto
  then have l: "list_all (ok_event T C) E \<Longrightarrow> list_all (ok_event T D) E" for E :: "'a event list"
    by (induction E) auto
  from a obtain E where E: "events t = events s @ E" "handle t = replay bw (handle s) E"
    "list_all (ok_event T C) E" unfolding extends_def by blast
  show ?thesis unfolding extends_def
    by (rule exI [of _ E]) (simp add: E(1,2) l [OF E(3)])
qed

lemma clone_docs_extends:
  "clone_docs bw T c docs ops n s = (r, t) \<Longrightarrow> c \<in> C \<Longrightarrow> list_all keyed ops
     \<Longrightarrow> length ops < max 1 T \<Longrightarrow> extends bw T C s t"
proof (induction docs arbitrary: ops n s)
  case Nil
  then show ?case by simp
next
  case (Cons doc docs)
  show ?case
  proof (cases "upsert_op (Mapping doc)")
    case (Inl e)
    with Cons.prems show ?thesis by simp
  next
    case (Inr op)
    have k: "list_all keyed (ops @ [op])"
      using Cons.prems(3) upsert_op_keyed [OF Inr] by simp
    show ?thesis
    proof (cases "T \<le> length (ops @ [op])")
      case False
      with Cons.prems Inr have "clone_docs bw T c docs (ops @ [op]) n s = (r, t)" by simp
      moreover have "length (ops @ [op]) < max 1 T" using False by simp
      ultimately show ?thesis using Cons.IH Cons.prems(2) k by blast
    next
      case True
      obtain e s' where bw: "bulk_write bw c (ops @ [op]) s = (e, s')" by force
      have len: "length (ops @ [op]) \<le> max 1 T" using Cons.prems(4) by simp
      have e1: "extends bw T C s s'"
        by (rule extends_bulk_write [OF bw Cons.prems(2) _ len k]) simp
      show ?thesis
      proof (cases e)
        case (Some err)
        with Cons.prems(1) Inr True bw have "t = s'" by simp
        with e1 show ?thesis by simp
      next
        case None
        let ?s2 = "log (progress ''Processed'' (n + length (ops @ [op]))) s'"
        from Cons.prems(1) Inr True bw None
        have "clone_docs bw T c docs [] (n + length (ops @ [op])) ?s2 = (r, t)"
          by (simp add: progress_def)
        then have "extends bw T C ?s2 t"
          using Cons.IH Cons.prems(2) by simp
        moreover have "extends bw T C s' ?s2" by (rule extends_log) simp
        ultimately show ?thesis using e1 extends_trans by blast
      qed
    qed
  qed
qed

lemma flush_rest_extends:
  "flush_rest bw c ops n s = (r, t) \<Longrightarrow> c \<in> C \<Longrightarrow> list_all keyed ops
     \<Longrightarrow> length ops \<le> max 1 T \<Longrightarrow> extends bw T C s t"
proof (cases "ops = []")
  case True
  assume "flush_rest bw c ops n s = (r, t)"
  with True show ?thesis by (simp add: flush_rest_def)
next
  case False
  assume a: "flush_rest bw c ops n s = (r, t)" "c \<in> C" "list_all keyed ops" "length ops \<le> max 1 T"
  obtain e s' where bw: "bulk_write bw c ops s = (e, s')" by force
  have e1: "extends bw T C s s'"
    by (rule extends_bulk_write [OF bw a(2) False a(4) a(3)])
  show ?thesis
  proof (cases e)
    case (Some err)
    with a(1) False bw have "t = s'" by (simp add: flush_rest_def)
    with e1 show ?thesis by simp
  next
    case None
    with a(1) False bw have "t = log (finished c (n + length ops)) s'"
      by (auto simp add: flush_rest_def finished_def)
    then have "extends bw T C s' t" by (simp add: extends_log)
    with e1 show ?thesis using extends_trans by blast
  qed
qed

lemma clone_docs_pending:
  "clone_docs bw T c docs ops n s = (Inr (pending, n'), t) \<Longrightarrow> list_all keyed ops
     \<Longrightarrow> length ops < max 1 T \<Longrightarrow> list_all keyed pending \<and> length pending < max 1 T"
proof (induction docs arbitrary: ops n s)
  case Nil
  then show ?case by simp
next
  case (Cons doc docs)
  from Cons.prems show ?case
    by (auto split: sum.splits if_splits prod.splits option.splits
        dest!: Cons.IH dest: upsert_op_keyed)
qed

lemma clone_collection_extends:
  assumes "clone_collection bw T c docs s = (r, t)" "c \<in> C"
  shows "extends bw T C s t"
proof -
  let ?s1 = "log (''Cloning collection: '' @ c) s"
  have e1: "extends bw T C s ?s1" by (rule extends_log) simp
  obtain x s2 where cd: "clone_docs bw T c docs [] 0 ?s1 = (x, s2)" by force
  have e2: "extends bw T C ?s1 s2"
    by (rule clone_docs_extends [OF cd assms(2)]) simp_all
  show ?thesis
  proof (cases x)
    case (Inl e)
    with assms(1) cd have "t = s2" by (simp add: clone_collection_def)
    with e1 e2 show ?thesis using extends_trans by blast
  next
    case (Inr p)
    obtain pending n' where p: "p = (pending, n')" by force
    from clone_docs_pending [of bw T c docs "[]" 0 ?s1 pending n' s2] cd Inr p
    have pk: "list_all keyed pending" "length pending < max 1 T" by simp_all
    from assms(1) cd Inr p have "flush_rest bw c pending n' s2 = (r, t)"
      by (simp add: clone_collection_def)
    then have "extends bw T C s2 t"
      using flush_rest_extends assms(2) pk by (metis less_imp_le_nat)
    with e1 e2 show ?thesis using extends_trans by blast
  qed
qed

lemma clone_collections_extends:
  "clone_collections bw T colls s = (r, t)
     \<Longrightarrow> extends bw T {c \<in> fst ` set colls. \<not> prefix ''system.'' c} s t"
proof (induction colls arbitrary: s)
  case Nil
  then show ?case by simp
next
  case (Cons a colls)
  obtain c docs where a: "a = (c, docs)" by force
  let ?C = "{x \<in> fst ` set (a # colls). \<not> prefix ''system.'' x}"
  have mono: "extends bw T {x \<in> fst ` set colls. \<not> prefix ''system.'' x} u v
                \<Longrightarrow> extends bw T ?C u v" for u v
    by (erule extends_mono) auto
  show ?case
  proof (cases "prefix ''system.'' c")
    case True
    with Cons.prems a have "clone_collections bw T colls s = (r, t)" by simp
    then show ?thesis using Cons.IH mono by blast
  next
    case False
    obtain e s' where cc: "clone_collection bw T c docs s = (e, s')" by force
    have e1: "extends bw T ?C s s'"
      by (rule clone_collection_extends [OF cc]) (simp add: a False)
    show ?thesis
    proof (cases e)
      case (Some err)
      with Cons.prems a False cc have "t = s'" by simp
      with e1 show ?thesis by simp
    next
      case None
      with Cons.prems a False cc have "clone_collections bw T colls s' = (r, t)" by simp
      then have "extends bw T ?C s' t" using Cons.IH mono by blast
      with e1 show ?thesis using extends_trans by blast
    qed
  qed
qed

lemma restore_lines_extends:
  "restore_lines bw dec T c f ops n s = (r, t) \<Longrightarrow> c \<in> C \<Longrightarrow> list_all keyed ops
     \<Longrightarrow> length ops < max 1 T \<Longrightarrow> extends bw T C s t"
proof (induction f arbitrary: ops n s)
  case Nil
  then show ?case by simp
next
  case (Cons line f)
  show ?case
  proof (cases "blank line")
    case True
    with Cons.prems have "restore_lines bw dec T c f ops n s = (r, t)" by simp
    then show ?thesis using Cons.IH Cons.prems(2-) by blast
  next
    case nb: False
    show ?thesis
    proof (cases "dec line")
      case (Inl e)
      with Cons.prems nb show ?thesis by simp
    next
      case d: (Inr doc)
      show ?thesis
      proof (cases "upsert_op doc")
        case (Inl e)
        with Cons.prems nb d show ?thesis by simp
      next
        case (Inr op)
        have k: "list_all keyed (ops @ [op])"
          using Cons.prems(3) upsert_op_keyed [OF Inr] by simp
        show ?thesis
        proof (cases "T \<le> length (ops @ [op])")
          case False
          with Cons.prems Inr nb d have "restore_lines bw dec T c f (ops @ [op]) n s = (r, t)"
            by simp
          moreover have "length (ops @ [op]) < max 1 T" using False by simp
          ultimately show ?thesis using Cons.IH Cons.prems(2) k by blast
        next
          case True
          obtain e s' where bw: "bulk_write bw c (ops @ [op]) s = (e, s')" by force
          have len: "length (ops @ [op]) \<le> max 1 T" using Cons.prems(4) by simp
          have e1: "extends bw T C s s'"
            by (rule extends_bulk_write [OF bw Cons.prems(2) _ len k]) simp
          show ?thesis
          proof (cases e)
            case (Some err)
            with Cons.prems(1) Inr True bw nb d have "t = s'" by simp
            with e1 show ?thesis by simp
          next
            case None
            let ?s2 = "log (progress ''Imported'' (n + length (ops @ [op]))) s'"
            from Cons.prems(1) Inr True bw None nb d
            have "restore_lines bw dec T c f [] (n + length (ops @ [op])) ?s2 = (r, t)"
              by (simp add: progress_def)
            then have "extends bw T C ?s2 t"
              using Cons.IH Cons.prems(2) by simp
            moreover have "extends bw T C s' ?s2" by (rule extends_log) simp
            ultimately show ?thesis using e1 extends_trans by blast
          qed
        qed
      qed
    qed
  qed
qed

lemma restore_lines_pending:
  "restore_lines bw dec T c f ops n s = (Inr (pending, n'), t) \<Longrightarrow> list_all keyed ops
     \<Longrightarrow> length ops < max 1 T \<Longrightarrow> list_all keyed pending \<and> length pending < max 1 T"
proof (induction f arbitrary: ops n s)
  case Nil
  then show ?case by simp
next
  case (Cons line f)
  from Cons.prems show ?case
    by (auto split: sum.splits if_splits prod.splits option.splits
        dest!: Cons.IH dest: upsert_op_keyed)
qed

lemma restore_file_extends:
  assumes "restore_file bw dec T filename f s = (r, t)" "coll_of filename \<in> C"
  shows "extends bw T C s t"
proof -
  let ?c = "coll_of filename"
  let ?s1 = "log (''Importing collection: '' @ ?c) s"
  have e1: "extends bw T C s ?s1" by (rule extends_log) simp
  obtain x s2 where cd: "restore_lines bw dec T ?c f [] 0 ?s1 = (x, s2)" by force
  have e2: "extends bw T C ?s1 s2"
    by (rule restore_lines_extends [OF cd assms(2)]) simp_all
  show ?thesis
  proof (cases x)
    case (Inl e)
    with assms(1) cd have "t = s2" by (simp add: restore_file_def coll_of_def)
    with e1 e2 show ?thesis using extends_trans by blast
  next
    case (Inr p)
    obtain pending n' where p: "p = (pending, n')" by force
    from restore_lines_pending [of bw dec T ?c f "[]" 0 ?s1 pending n' s2] cd Inr p
    have pk: "list_all keyed pending" "length pending < max 1 T" by simp_all
    from assms(1) cd Inr p have "flush_rest bw ?c pending n' s2 = (r, t)"
      by (simp add: restore_file_def coll_of_def)
    then have "extends bw T C s2 t"
      using flush_rest_extends assms(2) pk by (metis less_imp_le_nat)
    with e1 e2 show ?thesis using extends_trans by blast
  qed
qed

lemma restore_files_extends:
  "restore_files bw dec T listdir s = (r, t)
     \<Longrightarrow> extends bw T {coll_of n |n. n \<in> fst ` set listdir \<and> suffix ''.json'' n} s t"
proof (induction listdir arbitrary: s)
  case Nil
  then show ?case by simp
next
  case (Cons a listdir)
  obtain filename f where a: "a = (filename, f)" by force
  let ?C = "{coll_of n |n. n \<in> fst ` set (a # listdir) \<and> suffix ''.json'' n}"
  have mono: "extends bw T {coll_of n |n. n \<in> fst ` set listdir \<and> suffix ''.json'' n} u v
                \<Longrightarrow> extends bw T ?C u v" for u v
    by (erule extends_mono) auto
  show ?case
  proof (cases "suffix ''.json'' filename")
    case False
    with Cons.prems a have "restore_files bw dec T listdir s = (r, t)" by simp
    then show ?thesis using Cons.IH mono by blast
  next
    case True
    obtain e s' where cc: "restore_file bw dec T filename f s = (e, s')" by force
    have e1: "extends bw T ?C s s'"
      by (rule restore_file_extends [OF cc]) (use a True in auto)
    show ?thesis
    proof (cases e)
      case (Some err)
      with Cons.prems a True cc have "t = s'" by simp
      with e1 show ?thesis by simp
    next
      case None
      with Cons.prems a True cc have "restore_files bw dec T listdir s' = (r, t)" by simp
      then have "extends bw T ?C s' t" using Cons.IH mono by blast
      with e1 show ?thesis using extends_trans by blast
    qed
  qed
qed

subsection \<open>The events of a loop that ends without an exception\<close>

lemma clone_docs_ok:
  "clone_docs bw T c docs ops n s = (Inr (pending, n'), t) \<Longrightarrow> length ops < T \<Longrightarrow>
     \<exists>us. map (\<lambda>d. upsert_op (Mapping d)) docs = map Inr us
        \<and> pending = remainder T (ops @ us)
        \<and> n' = n + T * length (full_chunks T (ops @ us))
        \<and> events t = events s @ flush_events ''Processed'' c n (full_chunks T (ops @ us))"
proof (induction docs arbitrary: ops n s)
  case Nil
  then show ?case
    by (simp add: remainder_short full_chunks_short)
next
  case (Cons doc docs)
  from Cons.prems(1) obtain op where op: "upsert_op (Mapping doc) = Inr op"
    by (cases "upsert_op (Mapping doc)") auto
  show ?case
  proof (cases "T \<le> length (ops @ [op])")
    case False
    with Cons.prems op have "clone_docs bw T c docs (ops @ [op]) n s = (Inr (pending, n'), t)"
      by simp
    from Cons.IH [OF this] False obtain us where
      us: "map (\<lambda>d. upsert_op (Mapping d)) docs = map Inr us"
        "pending = remainder T ((ops @ [op]) @ us)"
        "n' = n + T * length (full_chunks T ((ops @ [op]) @ us))"
        "events t = events s @ flush_events ''Processed'' c n (full_chunks T ((ops @ [op]) @ us))"
      by auto
    show ?thesis
      by (rule exI [of _ "op # us"]) (use us op in simp)
  next
    case True
    then have len: "length (ops @ [op]) = T" using Cons.prems(2) by simp
    obtain e s' where bw: "bulk_write bw c (ops @ [op]) s = (e, s')" by force
    from Cons.prems(1) op True bw have e: "e = None"
      by (cases e) auto
    let ?s2 = "log (progress ''Processed'' (n + length (ops @ [op]))) s'"
    from Cons.prems(1) op True bw e
    have "clone_docs bw T c docs [] (n + length (ops @ [op])) ?s2 = (Inr (pending, n'), t)"
      by (simp add: progress_def)
    from Cons.IH [OF this] Cons.prems(2) obtain us where
      us: "map (\<lambda>d. upsert_op (Mapping d)) docs = map Inr us"
        "pending = remainder T us"
        "n' = n + length (ops @ [op]) + T * length (full_chunks T us)"
        "events t = events ?s2 @ flush_events ''Processed'' c (n + length (ops @ [op])) (full_chunks T us)"
      by auto
    have T: "0 < T" using Cons.prems(2) by simp
    have fc: "full_chunks T (ops @ op # us) = (ops @ [op]) # full_chunks T us"
      using full_chunks_step [OF T len, of us] by simp
    have rm: "remainder T (ops @ op # us) = remainder T us"
      using remainder_step [OF T len, of us] by simp
    show ?thesis
      by (rule exI [of _ "op # us"])
         (use us op fc rm len [symmetric] bulk_write_D(1) [OF bw] in simp)
  qed
qed

lemma restore_lines_ok:
  "restore_lines bw dec T c f ops n s = (Inr (pending, n'), t) \<Longrightarrow> length ops < T \<Longrightarrow>
     \<exists>docs us. map dec (filter (\<lambda>l. \<not> blank l) f) = map Inr docs
        \<and> map upsert_op docs = map Inr us
        \<and> pending = remainder T (ops @ us)
        \<and> n' = n + T * length (full_chunks T (ops @ us))
        \<and> events t = events s @ flush_events ''Imported'' c n (full_chunks T (ops @ us))"
proof (induction f arbitrary: ops n s)
  case Nil
  then show ?case
    by (simp add: remainder_short full_chunks_short)
next
  case (Cons line f)
  show ?case
  proof (cases "blank line")
    case True
    with Cons.prems have "restore_lines bw dec T c f ops n s = (Inr (pending, n'), t)" by simp
    from Cons.IH [OF this Cons.prems(2)] True show ?thesis by simp
  next
    case nb: False
    from Cons.prems(1) nb obtain doc where doc: "dec line = Inr doc"
      by (cases "dec line") auto
    from Cons.prems(1) nb doc obtain op where op: "upsert_op doc = Inr op"
      by (cases "upsert_op doc") auto
    show ?thesis
    proof (cases "T \<le> length (ops @ [op])")
      case False
      with Cons.prems op nb doc
      have "restore_lines bw dec T c f (ops @ [op]) n s = (Inr (pending, n'), t)"
        by simp
      from Cons.IH [OF this] False obtain docs us where
        us: "map dec (filter (\<lambda>l. \<not> blank l) f) = map Inr docs"
          "map upsert_op docs = map Inr us"
          "pending = remainder T ((ops @ [op]) @ us)"
          "n' = n + T * length (full_chunks T ((ops @ [op]) @ us))"
          "events t = events s @ flush_events ''Imported'' c n (full_chunks T ((ops @ [op]) @ us))"
        by auto
      show ?thesis
        by (rule exI [of _ "doc # docs"], rule exI [of _ "op # us"]) (use us op nb doc in simp)
    next
      case True
      then have len: "length (ops @ [op]) = T" using Cons.prems(2) by simp
      obtain e s' where bw: "bulk_write bw c (ops @ [op]) s = (e, s')" by force
      from Cons.prems(1) op True bw nb doc have e: "e = None"
        by (cases e) auto
      let ?s2 = "log (progress ''Imported'' (n + length (ops @ [op]))) s'"
      from Cons.prems(1) op True bw e nb doc
      have "restore_lines bw dec T c f [] (n + length (ops @ [op])) ?s2 = (Inr (pending, n'), t)"
        by (simp add: progress_def)
      from Cons.IH [OF this] Cons.prems(2) obtain docs us where
        us: "map dec (filter (\<lambda>l. \<not> blank l) f) = map Inr docs"
          "map upsert_op docs = map Inr us"
          "pending = remainder T us"
          "n' = n + length (ops @ [op]) + T * length (full_chunks T us)"
          "events t = events ?s2 @ flush_events ''Imported'' c (n + length (ops @ [op])) (full_chunks T us)"
        by auto
      have T: "0 < T" using Cons.prems(2) by simp
      have fc: "full_chunks T (ops @ op # us) = (ops @ [op]) # full_chunks T us"
        using full_chunks_step [OF T len, of us] by simp
      have rm: "remainder T (ops @ op # us) = remainder T us"
        using remainder_step [OF T len, of us] by simp
      show ?thesis
        by (rule exI [of _ "doc # docs"], rule exI [of _ "op # us"])
           (use us op fc rm len [symmetric] nb doc bulk_write_D(1) [OF bw] in simp)
    qed
  qed
qed

lemma flush_rest_ok:
  "flush_rest bw c ops n s = (None, t) \<Longrightarrow> events t = events s @ rest_events c n ops"
  by (auto simp: flush_rest_def rest_events_def finished_def
      split: if_splits prod.splits option.splits dest: bulk_write_D(1))

lemma clone_collection_ok:
  assumes "clone_collection bw T c docs s = (None, t)" "0 < T"
  shows "\<exists>us. map (\<lambda>d. upsert_op (Mapping d)) docs = map Inr us
           \<and> events t = events s @ Log (''Cloning collection: '' @ c)
                 # collection_events ''Processed'' T c us"
proof -
  let ?s1 = "log (''Cloning collection: '' @ c) s"
  from assms(1) obtain pending n' s2 where
    cd: "clone_docs bw T c docs [] 0 ?s1 = (Inr (pending, n'), s2)"
    and fr: "flush_rest bw c pending n' s2 = (None, t)"
    by (auto simp: clone_collection_def split: prod.splits sum.splits)
  from clone_docs_ok [OF cd] assms(2) obtain us where
    us: "map (\<lambda>d. upsert_op (Mapping d)) docs = map Inr us"
      "pending = remainder T us" "n' = T * length (full_chunks T us)"
      "events s2 = events ?s1 @ flush_events ''Processed'' c 0 (full_chunks T us)"
    by auto
  show ?thesis
    by (rule exI [of _ us]) (use us flush_rest_ok [OF fr] in \<open>simp add: collection_events_def\<close>)
qed

lemma restore_file_ok:
  assumes "restore_file bw dec T filename f s = (None, t)" "0 < T"
  shows "\<exists>docs us. map dec (filter (\<lambda>l. \<not> blank l) f) = map Inr docs
           \<and> map upsert_op docs = map Inr us
           \<and> events t = events s @ Log (''Importing collection: '' @ coll_of filename)
                 # collection_events ''Imported'' T (coll_of filename) us"
proof -
  let ?c = "coll_of filename"
  let ?s1 = "log (''Importing collection: '' @ ?c) s"
  from assms(1) obtain pending n' s2 where
    cd: "restore_lines bw dec T ?c f [] 0 ?s1 = (Inr (pending, n'), s2)"
    and fr: "flush_rest bw ?c pending n' s2 = (None, t)"
    by (auto simp: restore_file_def coll_of_def Let_def split: prod.splits sum.splits)
  from restore_lines_ok [OF cd] assms(2) obtain docs us where
    us: "map dec (filter (\<lambda>l. \<not> blank l) f) = map Inr docs"
      "map upsert_op docs = map Inr us"
      "pending = remainder T us" "n' = T * length (full_chunks T us)"
      "events s2 = events ?s1 @ flush_events ''Imported'' ?c 0 (full_chunks T us)"
    by auto
  show ?thesis
    by (rule exI [of _ docs], rule exI [of _ us])
       (use us flush_rest_ok [OF fr] in \<open>simp add: collection_events_def\<close>)
qed

lemma emitted_append [simp]: "events t = events s @ E \<Longrightarrow> emitted s t = E"
  by (simp add: emitted_def)

lemma extends_emitted:
  "extends bw T C s t \<Longrightarrow>
     events t = events s @ emitted s t \<and> handle t = replay bw (handle s) (emitted s t)
       \<and> list_all (ok_event T C) (emitted s t)"
  unfolding extends_def by (auto simp: emitted_def)



lemma ok_events_writes:
  "list_all (ok_event T C) E \<Longrightarrow> (c, b) \<in> set (writes E) \<Longrightarrow>
     c \<in> C \<and> b \<noteq> [] \<and> length b \<le> max 1 T \<and> list_all keyed b"
  by (induction E rule: writes.induct) auto

subsection \<open>clean_uri\<close>



subsection \<open>The three operations, whatever happens\<close>

lemma direct_clone_body_cases:
  assumes "direct_clone_body bw source T su sd du dd s = (r, t)"
  obtains E where "events t = events s @ start_clone su sd du dd @ E"
      "handle t = replay bw (handle s) E"
      "list_all (ok_event T {c. \<not> prefix ''system.'' c}) E"
      "(\<exists>e. r = Inl e) \<or> (r = Inr 0 \<and> E \<noteq> [] \<and> last E = Log ''Direct clone completed successfully.'')"
proof -
  let ?s2 = "log (''Starting direct clone from '' @ sd @ '' to '' @ dd)
               (connect (clean_uri du) (connect (clean_uri su) s))"
  have ev2: "events ?s2 = events s @ start_clone su sd du dd" "handle ?s2 = handle s"
    by (simp_all add: start_clone_def)
  show thesis
  proof (cases "source (clean_uri su) sd")
    case (Inl e)
    with assms have "r = Inl e" "t = ?s2" by (simp_all add: direct_clone_body_def Let_def)
    then show thesis using that [of "[]"] ev2 by simp
  next
    case (Inr colls)
    obtain x s3 where cc: "clone_collections bw T colls ?s2 = (x, s3)" by force
    from clone_collections_extends [OF cc]
    have "extends bw T {c. \<not> prefix ''system.'' c} ?s2 s3" by (rule extends_mono) auto
    then obtain E where E: "events s3 = events ?s2 @ E" "handle s3 = replay bw (handle ?s2) E"
      "list_all (ok_event T {c. \<not> prefix ''system.'' c}) E" unfolding extends_def by blast
    show thesis
    proof (cases x)
      case (Some e)
      with assms Inr cc have "r = Inl e" "t = s3" by (simp_all add: direct_clone_body_def Let_def)
      then show thesis using that [of E] E ev2 by simp
    next
      case None
      with assms Inr cc have "r = Inr 0" "t = log ''Direct clone completed successfully.'' s3"
        by (simp_all add: direct_clone_body_def Let_def)
      then show thesis
        using that [of "E @ [Log ''Direct clone completed successfully.'']"] E ev2 by simp
    qed
  qed
qed

lemma write_file_events [simp]: "events (write_file p name ls s) = events s"
  by (simp add: write_file_def split: option.splits)

lemma makedirs_events [simp]: "events (makedirs p s) = events s"
  by (simp add: makedirs_def)





lemma restore_from_file_body_cases:
  assumes "restore_from_file_body bw dec files T uri db_name input_path s = (r, t)"
    "files input_path = Some listdir"
  obtains E where "events t = events s @ start_restore uri db_name input_path @ E"
      "handle t = replay bw (handle s) E"
      "list_all (ok_event T {coll_of n |n. n \<in> fst ` set listdir \<and> suffix ''.json'' n}) E"
      "(\<exists>e. r = Inl e) \<or> (r = Inr 0 \<and> E \<noteq> [] \<and> last E = Log ''Restore completed successfully.'')"
proof -
  let ?s2 = "log (''Restoring database '' @ db_name @ '' from '' @ input_path) (connect (clean_uri uri) s)"
  let ?C = "{coll_of n |n. n \<in> fst ` set listdir \<and> suffix ''.json'' n}"
  have ev2: "events ?s2 = events s @ start_restore uri db_name input_path" "handle ?s2 = handle s"
    by (simp_all add: start_restore_def)
  obtain x s3 where cc: "restore_files bw dec T listdir ?s2 = (x, s3)" by force
  from restore_files_extends [OF cc]
  obtain E where E: "events s3 = events ?s2 @ E" "handle s3 = replay bw (handle ?s2) E"
    "list_all (ok_event T ?C) E" unfolding extends_def by blast
  show thesis
  proof (cases x)
    case (Some e)
    with assms cc have "r = Inl e" "t = s3"
      by (simp_all add: restore_from_file_body_def Let_def)
    then show thesis using that [of E] E ev2 by simp
  next
    case None
    with assms cc have "r = Inr 0" "t = log ''Restore completed successfully.'' s3"
      by (simp_all add: restore_from_file_body_def Let_def)
    then show thesis
      using that [of "E @ [Log ''Restore completed successfully.'']"] E ev2 by simp
  qed
qed

lemma restore_from_file_body_no_dir:
  assumes "files input_path = None"
  shows "restore_from_file_body bw dec files T uri db_name input_path s =
     (Inr 1, s\<lparr>events := events s @ start_restore uri db_name input_path
                  @ [Log (''ERROR: '' @ input_path @ '' is not a directory.'')]\<rparr>)"
  using assms
  by (simp add: restore_from_file_body_def Let_def start_restore_def log_def connect_def)

subsection \<open>The boundary\<close>

lemma start_error_lines [simp]:
  "error_lines (log_lines (start_clone su sd du dd)) = []"
  "error_lines (log_lines (start_dump uri db p)) = []"
  "error_lines (log_lines (start_restore uri db p)) = []"
  by (simp_all add: error_lines_def start_clone_def start_dump_def start_restore_def)

lemma error_lines_append [simp]: "error_lines (xs @ ys) = error_lines xs @ error_lines ys"
  by (simp add: error_lines_def)






lemma restore_from_file_no_dir:
  assumes "files input_path = None"
  shows "restore_from_file bw dec files T uri db_name input_path s =
     (1, s\<lparr>events := events s @ start_restore uri db_name input_path
                  @ [Log (''ERROR: '' @ input_path @ '' is not a directory.'')]\<rparr>)"
  using restore_from_file_body_no_dir [of files input_path bw dec T uri db_name s] assms
  by (simp add: restore_from_file_def boundary_def)

subsection \<open>Connections\<close>





subsection \<open>A loop that ends without an exception has met no document without identity\<close>

lemma upsert_op_no_id: "getitem doc ''_id'' = Inl e \<Longrightarrow> upsert_op doc = Inl e"
  by (simp add: upsert_op_def)

lemma upsert_op_KeyError: "map_of d ''_id'' = None \<Longrightarrow> upsert_op (Mapping d) = Inl (KeyError ''_id'')"
  by (simp add: upsert_op_def)

lemma clone_docs_all:
  "clone_docs bw T c docs ops n s = (Inr p, t) \<Longrightarrow> d \<in> set docs \<Longrightarrow>
     \<exists>op. upsert_op (Mapping d) = Inr op"
proof (induction docs arbitrary: ops n s)
  case Nil
  then show ?case by simp
next
  case (Cons doc docs)
  from Cons.prems show ?case
    by (auto split: sum.splits if_splits prod.splits option.splits dest: Cons.IH)
qed

lemma clone_collection_all:
  "clone_collection bw T c docs s = (None, t) \<Longrightarrow> d \<in> set docs \<Longrightarrow>
     \<exists>op. upsert_op (Mapping d) = Inr op"
  by (auto simp: clone_collection_def split: prod.splits sum.splits dest: clone_docs_all)

lemma clone_collections_all:
  "clone_collections bw T colls s = (None, t) \<Longrightarrow> (c, docs) \<in> set colls \<Longrightarrow>
     \<not> prefix ''system.'' c \<Longrightarrow> d \<in> set docs \<Longrightarrow> \<exists>op. upsert_op (Mapping d) = Inr op"
proof (induction colls arbitrary: s)
  case Nil
  then show ?case by simp
next
  case (Cons a colls)
  obtain c' docs' where a: "a = (c', docs')" by force
  from Cons.prems a show ?case
    by (auto split: if_splits prod.splits option.splits
        dest: Cons.IH clone_collection_all)
qed

lemma restore_lines_all:
  "restore_lines bw dec T c f ops n s = (Inr p, t) \<Longrightarrow> l \<in> set f \<Longrightarrow> \<not> blank l \<Longrightarrow>
     \<exists>doc op. dec l = Inr doc \<and> upsert_op doc = Inr op"
proof (induction f arbitrary: ops n s)
  case Nil
  then show ?case by simp
next
  case (Cons line f)
  from Cons.prems show ?case
    by (auto split: sum.splits if_splits prod.splits option.splits dest: Cons.IH)
qed

lemma restore_file_all:
  "restore_file bw dec T filename f s = (None, t) \<Longrightarrow> l \<in> set f \<Longrightarrow> \<not> blank l \<Longrightarrow>
     \<exists>doc op. dec l = Inr doc \<and> upsert_op doc = Inr op"
  by (auto simp: restore_file_def Let_def split: prod.splits sum.splits dest: restore_lines_all)

lemma restore_files_all:
  "restore_files bw dec T listdir s = (None, t) \<Longrightarrow> (filename, f) \<in> set listdir \<Longrightarrow>
     suffix ''.json'' filename \<Longrightarrow> l \<in> set f \<Longrightarrow> \<not> blank l \<Longrightarrow>
     \<exists>doc op. dec l = Inr doc \<and> upsert_op doc = Inr op"
proof (induction listdir arbitrary: s)
  case Nil
  then show ?case by simp
next
  case (Cons a listdir)
  obtain n' f' where a: "a = (n', f')" by force
  from Cons.prems a show ?case
    by (auto split: if_splits prod.splits option.splits
        dest: Cons.IH restore_file_all)
qed

subsection \<open>The status, from the loop over the collections or the files\<close>

lemma direct_clone_status:
  assumes "source (clean_uri su) sd = Inr colls"
  shows "fst (direct_clone bw source T su sd du dd s) =
     (case fst (clone_collections bw T colls
                  (log (''Starting direct clone from '' @ sd @ '' to '' @ dd)
                     (connect (clean_uri du) (connect (clean_uri su) s)))) of
        None \<Rightarrow> 0 | Some e \<Rightarrow> 1)"
  using assms
  by (auto simp: direct_clone_def direct_clone_body_def boundary_def Let_def
      split: prod.splits option.splits)

lemma restore_from_file_status:
  assumes "files p = Some listdir"
  shows "fst (restore_from_file bw dec files T uri db p s) =
     (case fst (restore_files bw dec T listdir
                  (log (''Restoring database '' @ db @ '' from '' @ p) (connect (clean_uri uri) s))) of
        None \<Rightarrow> 0 | Some e \<Rightarrow> 1)"
  using assms
  by (auto simp: restore_from_file_def restore_from_file_body_def boundary_def Let_def
      split: prod.splits option.splits)

lemma direct_clone_missing_id:
  assumes "source (clean_uri su) sd = Inr colls" "(c, docs) \<in> set colls"
    "\<not> prefix ''system.'' c" "d \<in> set docs" "map_of d ''_id'' = None"
  shows "fst (direct_clone bw source T su sd du dd s) = 1"
proof -
  let ?s2 = "log (''Starting direct clone from '' @ sd @ '' to '' @ dd)
               (connect (clean_uri du) (connect (clean_uri su) s))"
  obtain x t where cc: "clone_collections bw T colls ?s2 = (x, t)" by force
  have "x \<noteq> None"
  proof
    assume "x = None"
    with cc clone_collections_all [of bw T colls ?s2 t c docs d] assms(2-4)
    obtain op where "upsert_op (Mapping d) = Inr op" by blast
    with upsert_op_KeyError [OF assms(5)] show False by simp
  qed
  then show ?thesis
    using direct_clone_status [of source su sd colls bw T du dd s] assms(1) cc by auto
qed

lemma restore_from_file_bad_line:
  assumes "files p = Some listdir" "(filename, f) \<in> set listdir" "suffix ''.json'' filename"
    "l \<in> set f" "\<not> blank l"
    "(\<exists>e. dec l = Inl e) \<or> (\<exists>doc e. dec l = Inr doc \<and> getitem doc ''_id'' = Inl e)"
  shows "fst (restore_from_file bw dec files T uri db p s) = 1"
proof -
  let ?s2 = "log (''Restoring database '' @ db @ '' from '' @ p) (connect (clean_uri uri) s)"
  obtain x t where cc: "restore_files bw dec T listdir ?s2 = (x, t)" by force
  have "x \<noteq> None"
  proof
    assume "x = None"
    with cc restore_files_all [of bw dec T listdir ?s2 t filename f l] assms(2-5)
    obtain doc op where "dec l = Inr doc" "upsert_op doc = Inr op" by blast
    with assms(6) show False by (auto dest: upsert_op_no_id)
  qed
  then show ?thesis
    using restore_from_file_status [of files p listdir bw dec T uri db s] assms(1) cc by auto
qed

subsection \<open>The destination is what the calls built\<close>

lemma ok_events_writes_all:
  "list_all (ok_event T C) E \<Longrightarrow>
     list_all (\<lambda>(c, b). c \<in> C \<and> b \<noteq> [] \<and> length b \<le> max 1 T \<and> list_all keyed b) (writes E)"
  by (induction E rule: writes.induct) auto

lemma direct_clone_replay:
  "handle (snd (direct_clone bw source T su sd du dd s))
     = replay bw (handle s) (emitted s (snd (direct_clone bw source T su sd du dd s)))
   \<and> list_all (\<lambda>(c, b). c \<in> {c. \<not> prefix ''system.'' c} \<and> b \<noteq> [] \<and> length b \<le> max 1 T \<and> list_all keyed b)
       (writes (emitted s (snd (direct_clone bw source T su sd du dd s))))"
proof -
  obtain r t where b: "direct_clone_body bw source T su sd du dd s = (r, t)" by force
  from b obtain E where E: "events t = events s @ start_clone su sd du dd @ E"
      "handle t = replay bw (handle s) E" "list_all (ok_event T {c. \<not> prefix ''system.'' c}) E"
    by (rule direct_clone_body_cases)
  note f = ok_events_writes_all [OF E(3)]
  show ?thesis
  proof (cases r)
    case (Inl e)
    with b E f show ?thesis
      by (simp add: direct_clone_def boundary_def emitted_def start_clone_def)
  next
    case (Inr st)
    with b E f show ?thesis
      by (simp add: direct_clone_def boundary_def emitted_def start_clone_def)
  qed
qed

lemma restore_from_file_replay:
  "handle (snd (restore_from_file bw dec files T uri db p s))
     = replay bw (handle s) (emitted s (snd (restore_from_file bw dec files T uri db p s)))
   \<and> list_all (\<lambda>(c, b). c \<in> {coll_of n |n. n \<in> fst ` set (case files p of None \<Rightarrow> [] | Some l \<Rightarrow> l)
                                    \<and> suffix ''.json'' n}
                  \<and> b \<noteq> [] \<and> length b \<le> max 1 T \<and> list_all keyed b)
       (writes (emitted s (snd (restore_from_file bw dec files T uri db p s))))"
proof (cases "files p")
  case None
  then show ?thesis
    using restore_from_file_no_dir [of files p bw dec T uri db s]
    by (simp add: emitted_def start_restore_def)
next
  case (Some listdir)
  obtain r t where b: "restore_from_file_body bw dec files T uri db p s = (r, t)" by force
  from b Some obtain E where E: "events t = events s @ start_restore uri db p @ E"
      "handle t = replay bw (handle s) E"
      "list_all (ok_event T {coll_of n |n. n \<in> fst ` set listdir \<and> suffix ''.json'' n}) E"
    by (rule restore_from_file_body_cases)
  note f = ok_events_writes_all [OF E(3)]
  show ?thesis
  proof (cases r)
    case (Inl e)
    with b E f Some show ?thesis
      by (simp add: restore_from_file_def boundary_def emitted_def start_restore_def)
  next
    case (Inr st)
    with b E f Some show ?thesis
      by (simp add: restore_from_file_def boundary_def emitted_def start_restore_def)
  qed
qed

subsection \<open>Files one after the other, and blank lines\<close>

lemma restore_files_append:
  "restore_files bw dec T (pre @ rest) s =
     (case restore_files bw dec T pre s of
        (None, s1) \<Rightarrow> restore_files bw dec T rest s1
      | (Some e, s1) \<Rightarrow> (Some e, s1))"
  by (induction pre arbitrary: s) (auto split: prod.splits option.splits)

lemma restore_lines_blank:
  "restore_lines bw dec T c (filter (\<lambda>l. \<not> blank l) f) ops n s = restore_lines bw dec T c f ops n s"
proof (induction f arbitrary: ops n s)
  case Nil
  then show ?case by simp
next
  case (Cons line f)
  show ?case
  proof (cases "blank line")
    case True
    then show ?thesis using Cons.IH by simp
  next
    case False
    then show ?thesis
      by (simp add: Cons.IH split: sum.splits prod.splits option.splits)
  qed
qed

lemma restore_file_blank:
  "restore_file bw dec T name (filter (\<lambda>l. \<not> blank l) f) s = restore_file bw dec T name f s"
  by (simp add: restore_file_def restore_lines_blank)

lemma restore_files_blank:
  "restore_files bw dec T (map (\<lambda>(name, f). (name, filter (\<lambda>l. \<not> blank l) f)) listdir) s
     = restore_files bw dec T listdir s"
  by (induction listdir arbitrary: s)
     (auto simp: restore_file_blank split: prod.splits option.splits)

lemma restore_from_file_blank:
  "restore_from_file bw dec (without_blank_lines files) T uri db p s
     = restore_from_file bw dec files T uri db p s"
  by (cases "files p")
     (simp_all add: restore_from_file_def restore_from_file_body_def without_blank_lines_def
        restore_files_blank)

lemma restore_from_file_earlier:
  assumes "files p = Some (pre @ rest)" "files' p = Some pre"
    "fst (restore_from_file bw dec files' T uri db p s) = 0"
  shows "\<exists>E. emitted s (snd (restore_from_file bw dec files T uri db p s))
              = butlast (emitted s (snd (restore_from_file bw dec files' T uri db p s))) @ E
           \<and> handle (snd (restore_from_file bw dec files T uri db p s))
              = replay bw (handle (snd (restore_from_file bw dec files' T uri db p s))) E"
proof -
  let ?s2 = "log (''Restoring database '' @ db @ '' from '' @ p) (connect (clean_uri uri) s)"
  obtain x s1 where pre: "restore_files bw dec T pre ?s2 = (x, s1)" by force
  have x: "x = None"
    using restore_from_file_status [of files' p pre bw dec T uri db s] assms(2,3) pre
    by (cases x) auto
  from restore_files_extends [OF pre] obtain E1 where
    E1: "events s1 = events ?s2 @ E1" "handle s1 = replay bw (handle ?s2) E1"
    unfolding extends_def by blast
  obtain y s3 where rest: "restore_files bw dec T rest s1 = (y, s3)" by force
  from restore_files_extends [OF rest] obtain E2 where
    E2: "events s3 = events s1 @ E2" "handle s3 = replay bw (handle s1) E2"
    unfolding extends_def by blast
  have run': "restore_from_file bw dec files' T uri db p s
                = (0, log ''Restore completed successfully.'' s1)"
    using assms(2) pre x
    by (simp add: restore_from_file_def restore_from_file_body_def boundary_def)
  have whole: "restore_files bw dec T (pre @ rest) ?s2 = (y, s3)"
    using pre x rest by (simp add: restore_files_append)
  have em': "butlast (emitted s (snd (restore_from_file bw dec files' T uri db p s)))
               = start_restore uri db p @ E1"
    using run' E1 by (simp add: emitted_def start_restore_def butlast_append)
  show ?thesis
  proof (cases y)
    case None
    then have "restore_from_file bw dec files T uri db p s
                 = (0, log ''Restore completed successfully.'' s3)"
      using assms(1) whole
      by (simp add: restore_from_file_def restore_from_file_body_def boundary_def)
    then show ?thesis using em' E1 E2 run'
      by (intro exI [of _ "E2 @ [Log ''Restore completed successfully.'']"])
         (simp add: emitted_def start_restore_def)
  next
    case (Some e)
    then have "restore_from_file bw dec files T uri db p s
                 = (1, log (''ERROR: '' @ str_error e) s3)"
      using assms(1) whole
      by (simp add: restore_from_file_def restore_from_file_body_def boundary_def)
    then show ?thesis using em' E1 E2 run'
      by (intro exI [of _ "E2 @ [Log (''ERROR: '' @ str_error e)]"])
         (simp add: emitted_def start_restore_def)
  qed
qed

subsection \<open>Nothing after a line that does not decode is read\<close>

lemma restore_lines_abort:
  assumes "\<not> blank line" "dec line = Inl e"
  shows "restore_lines bw dec T c (f1 @ line # f2) ops n s = restore_lines bw dec T c (f1 @ [line]) ops n s
     \<and> (\<exists>e' t. restore_lines bw dec T c (f1 @ [line]) ops n s = (Inl e', t))"
proof (induction f1 arbitrary: ops n s)
  case Nil
  then show ?case using assms by simp
next
  case (Cons l f1)
  note IH = Cons.IH
  show ?case
  proof (cases "blank l")
    case True
    then show ?thesis using IH by simp
  next
    case nb: False
    show ?thesis
    proof (cases "dec l")
      case (Inl a)
      then show ?thesis using nb by simp
    next
      case d: (Inr doc)
      show ?thesis
      proof (cases "upsert_op doc")
        case (Inl a)
        then show ?thesis using nb d by simp
      next
        case (Inr op)
        show ?thesis
        proof (cases "T \<le> length (ops @ [op])")
          case False
          then show ?thesis using nb d Inr IH [of "ops @ [op]" n s] by simp
        next
          case True
          obtain x s' where bw: "bulk_write bw c (ops @ [op]) s = (x, s')" by force
          show ?thesis
          proof (cases x)
            case None
            then show ?thesis
              using nb d Inr True bw
                IH [of "[]" "n + length (ops @ [op])"
                      "log (''  Imported '' @ str_nat (n + length (ops @ [op]))
                             @ '' documents (upserts)...'') s'"]
              by simp
          next
            case (Some a)
            then show ?thesis using nb d Inr True bw by simp
          qed
        qed
      qed
    qed
  qed
qed

lemma restore_file_abort:
  assumes "\<not> blank line" "dec line = Inl e"
  shows "restore_file bw dec T name (f1 @ line # f2) s = restore_file bw dec T name (f1 @ [line]) s
     \<and> (\<exists>e' t. restore_file bw dec T name (f1 @ [line]) s = (Some e', t))"
proof -
  let ?c = "take (length name - 5) name"
  let ?s1 = "log (''Importing collection: '' @ ?c) s"
  from restore_lines_abort [of line dec e bw T ?c f1 f2 "[]" 0 ?s1] assms
  obtain e' t where
    "restore_lines bw dec T ?c (f1 @ line # f2) [] 0 ?s1 = (Inl e', t)"
    "restore_lines bw dec T ?c (f1 @ [line]) [] 0 ?s1 = (Inl e', t)"
    by auto
  then show ?thesis by (simp add: restore_file_def)
qed

lemma restore_from_file_abort:
  assumes "\<not> blank line" "dec line = Inl e" "suffix ''.json'' name"
    "files p = Some (pre @ (name, f1 @ line # f2) # post)"
    "files' p = Some (pre @ [(name, f1 @ [line])])"
  shows "restore_from_file bw dec files T uri db p s = restore_from_file bw dec files' T uri db p s"
proof -
  have "restore_files bw dec T ((name, f1 @ line # f2) # post) u
          = restore_files bw dec T [(name, f1 @ [line])] u" for u
    using restore_file_abort [of line dec e bw T name f1 f2 u] assms(1-3) by auto
  then have "restore_files bw dec T (pre @ (name, f1 @ line # f2) # post) u
          = restore_files bw dec T (pre @ [(name, f1 @ [line])]) u" for u
    by (simp add: restore_files_append split: prod.splits option.splits)
  then show ?thesis
    using assms(4,5) by (simp add: restore_from_file_def restore_from_file_body_def)
qed

subsection \<open>Counting the batches\<close>

lemma full_chunks_count: "0 < T \<Longrightarrow> length (full_chunks T xs) = length xs div T"
proof (induction T xs rule: full_chunks.induct)
  case (1 T xs)
  show ?case
  proof (cases "length xs < T")
    case True
    then show ?thesis by (simp add: full_chunks_short)
  next
    case False
    then have "length (full_chunks T (drop T xs)) = (length xs - T) div T"
      using 1 by simp
    then show ?thesis using False 1(2)
      by (subst full_chunks.simps) (simp add: le_div_geq)
  qed
qed

lemma remainder_count: "0 < T \<Longrightarrow> length (remainder T xs) = length xs mod T"
proof (induction T xs rule: remainder.induct)
  case (1 T xs)
  show ?case
  proof (cases "length xs < T")
    case True
    then show ?thesis by (simp add: remainder_short)
  next
    case False
    then have "length (remainder T (drop T xs)) = (length xs - T) mod T"
      using 1 by simp
    then show ?thesis using False 1(2)
      by (subst remainder.simps) (simp add: le_mod_geq)
  qed
qed

lemma batches_concat: "concat (batches T xs) = xs"
  using chunks_concat [of T xs] by (auto simp add: batches_def)

lemma batches_bound: "0 < T \<Longrightarrow> b \<in> set (batches T xs) \<Longrightarrow> b \<noteq> [] \<and> length b \<le> T"
  using full_chunks_length [of b T xs] remainder_length [of T xs]
  by (auto simp: batches_def split: if_splits)

lemma batches_exact: "0 < T \<Longrightarrow> length xs = T \<Longrightarrow> batches T xs = [xs]"
  using full_chunks_step [of T xs "[]"]
  by (simp add: batches_def remainder_step [of T xs "[]", simplified]
      full_chunks_short remainder_short)

lemma batches_one_more:
  "0 < T \<Longrightarrow> length xs = T + 1 \<Longrightarrow> batches T xs = [take T xs, drop T xs]"
proof -
  assume T: "0 < T" and l: "length xs = T + 1"
  have x: "xs = take T xs @ drop T xs" by simp
  have lt: "length (take T xs) = T" using l by simp
  have ld: "length (drop T xs) = 1" using l by simp
  show ?thesis
  proof (cases "T = 1")
    case True
    have "full_chunks T (take T xs @ drop T xs) = take T xs # full_chunks T (drop T xs)"
      by (rule full_chunks_step [OF T lt])
    moreover have "full_chunks T (drop T xs @ []) = drop T xs # full_chunks T []"
      by (rule full_chunks_step [OF T]) (use ld True in simp)
    moreover have "remainder T (take T xs @ drop T xs) = remainder T (drop T xs)"
      by (rule remainder_step [OF T lt])
    moreover have "remainder T (drop T xs @ []) = remainder T []"
      by (rule remainder_step [OF T]) (use ld True in simp)
    ultimately show ?thesis using T
      by (simp add: batches_def full_chunks_short remainder_short)
  next
    case False
    then have sh: "length (drop T xs) < T" using ld T by simp
    have "full_chunks T (take T xs @ drop T xs) = take T xs # full_chunks T (drop T xs)"
      by (rule full_chunks_step [OF T lt])
    moreover have "remainder T (take T xs @ drop T xs) = remainder T (drop T xs)"
      by (rule remainder_step [OF T lt])
    ultimately show ?thesis using sh ld
      by (auto simp add: batches_def full_chunks_short remainder_short)
  qed
qed

lemma batches_one_less:
  "2 \<le> T \<Longrightarrow> length xs = T - 1 \<Longrightarrow> batches T xs = [xs]"
  by (auto simp: batches_def full_chunks_short remainder_short)

subsection \<open>The batches and the lines of one collection\<close>

lemma writes_flush_events [simp]: "writes (flush_events verb c n bs) = map (Pair c) bs"
  by (induction bs arbitrary: n) auto

lemma writes_rest_events [simp]:
  "writes (rest_events c n b) = (if b = [] then [] else [(c, b)])"
  by (simp add: rest_events_def)

lemma writes_collection_events: "writes (collection_events verb T c us) = map (Pair c) (batches T us)"
  by (simp add: collection_events_def batches_def)

lemma log_lines_flush_events:
  "list_all (\<lambda>b. length b = T) bs \<Longrightarrow>
     log_lines (flush_events verb c n bs) = map (\<lambda>k. progress verb (n + k * T)) [1..<Suc (length bs)]"
proof (induction bs arbitrary: n)
  case Nil
  then show ?case by simp
next
  case (Cons b bs)
  have "[1..<Suc (Suc (length bs))] = 1 # map Suc [1..<Suc (length bs)]"
    by (simp add: upt_conv_Cons map_Suc_upt del: upt_Suc)
  then show ?case using Cons
    by (simp add: o_def add.assoc del: upt_Suc)
qed

lemma log_lines_collection_events:
  assumes "0 < T"
  shows "log_lines (collection_events verb T c us) =
     map (\<lambda>k. progress verb (k * T)) [1..<Suc (length us div T)]
       @ (if length us mod T = 0 then [] else [finished c (length us)])"
proof -
  have all: "list_all (\<lambda>b. length b = T) (full_chunks T us)"
    using full_chunks_length [of _ T us] by (simp add: list_all_iff)
  have r: "(remainder T us = []) = (length us mod T = 0)"
    using remainder_count [OF assms, of us] by (metis length_0_conv)
  have tot: "T * (length us div T) + length us mod T = length us" by simp
  show ?thesis
    using log_lines_flush_events [OF all, of verb c 0] r tot
    by (simp add: collection_events_def rest_events_def full_chunks_count [OF assms]
        remainder_count [OF assms] del: upt_Suc)
qed

subsection \<open>The events of a run that ends without an exception\<close>

lemma clone_collections_ok:
  "clone_collections bw T colls s = (None, t) \<Longrightarrow> 0 < T \<Longrightarrow>
     \<exists>uss. list_all2 (\<lambda>cd us. upserts (map Mapping (snd cd)) us) (transferred colls) uss
        \<and> events t = events s @ concat (map (cloning T) (zip (map fst (transferred colls)) uss))"
proof (induction colls arbitrary: s)
  case Nil
  then show ?case by (simp add: transferred_def)
next
  case (Cons a colls)
  obtain c docs where a: "a = (c, docs)" by force
  show ?case
  proof (cases "prefix ''system.'' c")
    case True
    with Cons.prems a have "clone_collections bw T colls s = (None, t)" by simp
    from Cons.IH [OF this Cons.prems(2)] True a show ?thesis by (simp add: transferred_def)
  next
    case False
    from Cons.prems(1) a False obtain s' where
      cc: "clone_collection bw T c docs s = (None, s')"
      and rest: "clone_collections bw T colls s' = (None, t)"
      by (auto split: prod.splits option.splits)
    from clone_collection_ok [OF cc Cons.prems(2)] obtain us where
      us: "upserts (map Mapping docs) us" "events s' = events s @ cloning T (c, us)"
      by (auto simp: upserts_def cloning_def o_def)
    from Cons.IH [OF rest Cons.prems(2)] obtain uss where
      uss: "list_all2 (\<lambda>cd us. upserts (map Mapping (snd cd)) us) (transferred colls) uss"
        "events t = events s' @ concat (map (cloning T) (zip (map fst (transferred colls)) uss))"
      by blast
    show ?thesis
      by (rule exI [of _ "us # uss"]) (use us uss a False in \<open>simp add: transferred_def\<close>)
  qed
qed


lemma direct_clone_ok:
  assumes "fst (direct_clone bw source T su sd du dd s) = 0" "0 < T"
  shows "\<exists>colls uss. source (clean_uri su) sd = Inr colls
     \<and> list_all2 (\<lambda>cd us. upserts (map Mapping (snd cd)) us) (transferred colls) uss
     \<and> emitted s (snd (direct_clone bw source T su sd du dd s))
         = start_clone su sd du dd
           @ concat (map (cloning T) (zip (map fst (transferred colls)) uss))
           @ [Log ''Direct clone completed successfully.'']"
proof -
  let ?s2 = "log (''Starting direct clone from '' @ sd @ '' to '' @ dd)
               (connect (clean_uri du) (connect (clean_uri su) s))"
  from assms(1) obtain colls where src: "source (clean_uri su) sd = Inr colls"
    by (cases "source (clean_uri su) sd")
       (auto simp: direct_clone_def direct_clone_body_def boundary_def Let_def)
  obtain x t where cc: "clone_collections bw T colls ?s2 = (x, t)" by force
  have x: "x = None"
    using direct_clone_status [of source su sd colls bw T du dd s] src cc assms(1)
    by (cases x) auto
  from clone_collections_ok [OF cc [unfolded x] assms(2)] obtain uss where
    uss: "list_all2 (\<lambda>cd us. upserts (map Mapping (snd cd)) us) (transferred colls) uss"
      "events t = events ?s2 @ concat (map (cloning T) (zip (map fst (transferred colls)) uss))"
    by blast
  have "direct_clone bw source T su sd du dd s = (0, log ''Direct clone completed successfully.'' t)"
    using src cc x by (simp add: direct_clone_def direct_clone_body_def boundary_def)
  then show ?thesis using src uss
    by (intro exI [of _ colls] exI [of _ uss]) (simp add: emitted_def start_clone_def)
qed


subsection \<open>A driver that never raises\<close>

lemma bulk_write_never:
  "never_raises bw \<Longrightarrow> \<exists>t. bulk_write bw c ops s = (None, t)"
  by (auto simp: bulk_write_def never_raises_def split: prod.splits) (metis snd_conv)

lemma clone_docs_total:
  "never_raises bw \<Longrightarrow> upserts (map Mapping docs) us \<Longrightarrow>
     \<exists>p t. clone_docs bw T c docs ops n s = (Inr p, t)"
proof (induction docs arbitrary: us ops n s)
  case Nil
  then show ?case by simp
next
  case (Cons doc docs)
  from Cons.prems(2) obtain op us' where us: "us = op # us'" "upsert_op (Mapping doc) = Inr op"
    "upserts (map Mapping docs) us'"
    by (cases us) (auto simp: upserts_def)
  obtain s' where bw: "bulk_write bw c (ops @ [op]) s = (None, s')"
    using bulk_write_never [OF Cons.prems(1)] by blast
  show ?case
    using Cons.IH [OF Cons.prems(1) us(3)] us(2) bw by simp
qed

lemma flush_rest_total: "never_raises bw \<Longrightarrow> \<exists>t. flush_rest bw c ops n s = (None, t)"
  using bulk_write_never [of bw c ops s] by (auto simp: flush_rest_def)

lemma clone_collection_total:
  assumes "never_raises bw" "upserts (map Mapping docs) us"
  shows "\<exists>t. clone_collection bw T c docs s = (None, t)"
proof -
  from clone_docs_total [OF assms, of T c "[]" 0 "log (''Cloning collection: '' @ c) s"]
  obtain p t where "clone_docs bw T c docs [] 0 (log (''Cloning collection: '' @ c) s) = (Inr p, t)"
    by blast
  then show ?thesis
    using flush_rest_total [OF assms(1), of c "fst p" "snd p" t]
    by (cases p) (simp add: clone_collection_def)
qed

subsection \<open>Batches and messages, paired\<close>

lemma flush_events_flushed:
  "flush_events verb c n bs = flushed c bs (log_lines (flush_events verb c n bs))"
  by (induction bs arbitrary: n) (simp_all add: flushed_def)

lemma flushed_append:
  "length bs = length ms \<Longrightarrow> flushed c (bs @ bs') (ms @ ms') = flushed c bs ms @ flushed c bs' ms'"
  by (simp add: flushed_def)

lemma length_log_lines_flush_events [simp]:
  "length (log_lines (flush_events verb c n bs)) = length bs"
  by (induction bs arbitrary: n) simp_all

lemma collection_events_flushed:
  assumes "0 < T"
  shows "collection_events verb T c us = flushed c (batches T us) (messages verb T c (length us))
     \<and> length (batches T us) = length (messages verb T c (length us))"
proof -
  let ?fe = "flush_events verb c 0 (full_chunks T us)"
  have r: "(remainder T us = []) = (length us mod T = 0)"
    using remainder_count [OF assms, of us] by (metis length_0_conv)
  have all: "list_all (\<lambda>b. length b = T) (full_chunks T us)"
    using full_chunks_length [of _ T us] by (simp add: list_all_iff)
  have ll: "log_lines ?fe = map (\<lambda>k. progress verb (k * T)) [1..<Suc (length us div T)]"
    using log_lines_flush_events [OF all, of verb c 0]
    by (simp add: full_chunks_count [OF assms] del: upt_Suc)
  have tot: "T * (length us div T) + length us mod T = length us" by simp
  have re: "rest_events c (T * length (full_chunks T us)) (remainder T us)
      = flushed c (if remainder T us = [] then [] else [remainder T us])
          (if length us mod T = 0 then [] else [finished c (length us)])"
    using r tot
    by (simp add: rest_events_def flushed_def full_chunks_count [OF assms]
        remainder_count [OF assms])
  have "collection_events verb T c us = flushed c (full_chunks T us) (log_lines ?fe)
      @ flushed c (if remainder T us = [] then [] else [remainder T us])
          (if length us mod T = 0 then [] else [finished c (length us)])"
    using flush_events_flushed [of verb c 0 "full_chunks T us"] re
    by (simp add: collection_events_def)
  also have "\<dots> = flushed c (batches T us) (messages verb T c (length us))"
    unfolding batches_def messages_def ll [symmetric]
    by (rule flushed_append [symmetric]) simp
  finally show ?thesis
    using r by (simp add: batches_def messages_def full_chunks_count [OF assms] del: upt_Suc)
qed

lemma upserts_length: "upserts docs us \<Longrightarrow> length us = length docs"
  unfolding upserts_def by (metis length_map)

lemma flush_sizes_flushed:
  "length bs = length ms \<Longrightarrow> flush_sizes (flushed c bs ms) = map length bs"
proof (induction bs arbitrary: ms)
  case Nil
  then show ?case by (simp add: flush_sizes_def flushed_def)
next
  case (Cons b bs)
  then obtain m ms' where "ms = m # ms'" by (cases ms) auto
  with Cons show ?case by (simp add: flush_sizes_def flushed_def)
qed

lemma flush_sizes_collection:
  assumes "0 < T"
  shows "flush_sizes (Log m # collection_events verb T c us) = map length (batches T us)"
  using collection_events_flushed [OF assms, of verb c us]
    flush_sizes_flushed [of "batches T us" "messages verb T c (length us)" c]
  by (simp add: flush_sizes_def)

lemma sum_list_batches: "sum_list (map length (batches T us)) = length us"
  using batches_concat [of T us] by (metis length_concat)

lemma clone_collection_emitted:
  assumes "fst (clone_collection bw T c docs s) = None" "0 < T"
  shows "\<exists>us. upserts (map Mapping docs) us
     \<and> emitted s (snd (clone_collection bw T c docs s))
         = Log (''Cloning collection: '' @ c) # collection_events ''Processed'' T c us"
proof -
  obtain t where t: "clone_collection bw T c docs s = (None, t)"
    using assms(1) by (cases "clone_collection bw T c docs s") auto
  from clone_collection_ok [OF t assms(2)] show ?thesis
    by (auto simp: t upserts_def o_def)
qed

lemma restore_file_emitted:
  assumes "fst (restore_file bw dec T name f s) = None" "0 < T"
  shows "\<exists>docs us. map dec (filter (\<lambda>l. \<not> blank l) f) = map Inr docs \<and> upserts docs us
     \<and> emitted s (snd (restore_file bw dec T name f s))
         = Log (''Importing collection: '' @ coll_of name) # collection_events ''Imported'' T (coll_of name) us"
proof -
  obtain t where t: "restore_file bw dec T name f s = (None, t)"
    using assms(1) by (cases "restore_file bw dec T name f s") auto
  from restore_file_ok [OF t assms(2)] show ?thesis
    by (auto simp: t upserts_def)
qed

subsection \<open>A numbered collection\<close>

lemma never_raises_mem [simp]: "never_raises mem_bulk_write"
  by (simp add: never_raises_def mem_bulk_write_def)

lemma upserts_numbered:
  "upserts (map Mapping (numbered n))
     (map (\<lambda>i. ReplaceOne (Atom (Integer (int i))) (Mapping [(''_id'', Atom (Integer (int i)))])) [0..<n])"
  by (simp add: upserts_def numbered_def upsert_op_def o_def)

lemma numbered_cloned:
  "fst (clone_collection mem_bulk_write T c (numbered n) s) = None"
  using clone_collection_total [OF never_raises_mem upserts_numbered, of T c n s] by auto

lemma length_numbered [simp]: "length (numbered n) = n"
  by (simp add: numbered_def)

subsection \<open>With a driver that never raises, a run does not depend on the destination\<close>

lemma bulk_write_never_eq:
  "never_raises bw \<Longrightarrow>
     bulk_write bw c ops s
       = (None, s\<lparr>handle := fst (bw (handle s) c ops), events := events s @ [BulkWrite c ops]\<rparr>)"
  by (simp add: bulk_write_def never_raises_def split: prod.splits) (metis snd_conv)

lemma clone_docs_indep:
  fixes bw :: "('a, 'h) driver"
  assumes "never_raises bw"
  shows "\<exists>r E. \<forall>s. fst (clone_docs bw T c docs ops n s) = r
                  \<and> events (snd (clone_docs bw T c docs ops n s)) = events s @ E"
proof (induction docs arbitrary: ops n)
  case Nil
  show ?case by (intro exI [of _ "Inr (ops, n)"] exI [of _ "[]"]) simp
next
  case (Cons doc docs)
  show ?case
  proof (cases "upsert_op (Mapping doc)")
    case (Inl e)
    then show ?thesis by (intro exI [of _ "Inl e"] exI [of _ "[]"]) simp
  next
    case (Inr op)
    show ?thesis
    proof (cases "T \<le> length (ops @ [op])")
      case False
      from Cons.IH [of "ops @ [op]" n] obtain r E where
        "\<forall>s. fst (clone_docs bw T c docs (ops @ [op]) n s) = r
            \<and> events (snd (clone_docs bw T c docs (ops @ [op]) n s)) = events s @ E" by blast
      then show ?thesis using Inr False
        by (intro exI [of _ r] exI [of _ E]) simp
    next
      case True
      let ?m = "''  Processed '' @ str_nat (n + length (ops @ [op])) @ '' documents (upserts)...''"
      from Cons.IH [of "[]" "n + length (ops @ [op])"] obtain r E where
        IH: "\<forall>s. fst (clone_docs bw T c docs [] (n + length (ops @ [op])) s) = r
            \<and> events (snd (clone_docs bw T c docs [] (n + length (ops @ [op])) s)) = events s @ E"
        by blast
      show ?thesis
      proof (intro exI [of _ r] exI [of _ "BulkWrite c (ops @ [op]) # Log ?m # E"] allI)
        fix s :: "('a, 'h) state"
        let ?s' = "s\<lparr>handle := fst (bw (handle s) c (ops @ [op])),
                      events := events s @ [BulkWrite c (ops @ [op])]\<rparr>"
        have "clone_docs bw T c (doc # docs) ops n s
                = clone_docs bw T c docs [] (n + length (ops @ [op])) (log ?m ?s')"
          using Inr True bulk_write_never_eq [OF assms, of c "ops @ [op]" s] by simp
        then show "fst (clone_docs bw T c (doc # docs) ops n s) = r
           \<and> events (snd (clone_docs bw T c (doc # docs) ops n s))
               = events s @ BulkWrite c (ops @ [op]) # Log ?m # E"
          using IH [rule_format, of "log ?m ?s'"] by simp
      qed
    qed
  qed
qed

lemma restore_lines_indep:
  fixes bw :: "('a, 'h) driver"
  assumes "never_raises bw"
  shows "\<exists>r E. \<forall>s. fst (restore_lines bw dec T c f ops n s) = r
                  \<and> events (snd (restore_lines bw dec T c f ops n s)) = events s @ E"
proof (induction f arbitrary: ops n)
  case Nil
  show ?case by (intro exI [of _ "Inr (ops, n)"] exI [of _ "[]"]) simp
next
  case (Cons line f)
  show ?case
  proof (cases "blank line")
    case True
    from Cons.IH [of ops n] obtain r E where
      "\<forall>s. fst (restore_lines bw dec T c f ops n s) = r
          \<and> events (snd (restore_lines bw dec T c f ops n s)) = events s @ E" by blast
    then show ?thesis using True by (intro exI [of _ r] exI [of _ E]) simp
  next
    case nb: False
    show ?thesis
    proof (cases "dec line")
      case (Inl e)
      then show ?thesis using nb by (intro exI [of _ "Inl e"] exI [of _ "[]"]) simp
    next
      case d: (Inr doc)
      show ?thesis
      proof (cases "upsert_op doc")
        case (Inl e)
        then show ?thesis using nb d by (intro exI [of _ "Inl e"] exI [of _ "[]"]) simp
      next
        case (Inr op)
        show ?thesis
        proof (cases "T \<le> length (ops @ [op])")
          case False
          from Cons.IH [of "ops @ [op]" n] obtain r E where
            "\<forall>s. fst (restore_lines bw dec T c f (ops @ [op]) n s) = r
                \<and> events (snd (restore_lines bw dec T c f (ops @ [op]) n s)) = events s @ E"
            by blast
          then show ?thesis using Inr False nb d
            by (intro exI [of _ r] exI [of _ E]) simp
        next
          case True
          let ?m = "''  Imported '' @ str_nat (n + length (ops @ [op])) @ '' documents (upserts)...''"
          from Cons.IH [of "[]" "n + length (ops @ [op])"] obtain r E where
            IH: "\<forall>s. fst (restore_lines bw dec T c f [] (n + length (ops @ [op])) s) = r
                \<and> events (snd (restore_lines bw dec T c f [] (n + length (ops @ [op])) s)) = events s @ E"
            by blast
          show ?thesis
          proof (intro exI [of _ r] exI [of _ "BulkWrite c (ops @ [op]) # Log ?m # E"] allI)
            fix s :: "('a, 'h) state"
            let ?s' = "s\<lparr>handle := fst (bw (handle s) c (ops @ [op])),
                          events := events s @ [BulkWrite c (ops @ [op])]\<rparr>"
            have "restore_lines bw dec T c (line # f) ops n s
                    = restore_lines bw dec T c f [] (n + length (ops @ [op])) (log ?m ?s')"
              using Inr True nb d bulk_write_never_eq [OF assms, of c "ops @ [op]" s] by simp
            then show "fst (restore_lines bw dec T c (line # f) ops n s) = r
               \<and> events (snd (restore_lines bw dec T c (line # f) ops n s))
                   = events s @ BulkWrite c (ops @ [op]) # Log ?m # E"
              using IH [rule_format, of "log ?m ?s'"] by simp
          qed
        qed
      qed
    qed
  qed
qed

lemma flush_rest_indep:
  assumes "never_raises bw"
  shows "\<exists>r E. \<forall>s. fst (flush_rest bw c ops n s) = r
                  \<and> events (snd (flush_rest bw c ops n s)) = events s @ E"
proof (cases "ops = []")
  case True
  then show ?thesis by (intro exI [of _ None] exI [of _ "[]"]) (simp add: flush_rest_def)
next
  case False
  then show ?thesis
    by (intro exI [of _ None]
          exI [of _ "[BulkWrite c ops, Log (''  Finished '' @ c @ '' with ''
                           @ str_nat (n + length ops) @ '' documents.'')]"])
       (simp add: flush_rest_def bulk_write_never_eq [OF assms])
qed

lemma clone_collection_indep:
  assumes "never_raises bw"
  shows "\<exists>r E. \<forall>s. fst (clone_collection bw T c docs s) = r
                  \<and> events (snd (clone_collection bw T c docs s)) = events s @ E"
proof -
  let ?m = "''Cloning collection: '' @ c"
  from clone_docs_indep [OF assms, of T c docs "[]" 0] obtain r E where
    cd: "\<forall>s. fst (clone_docs bw T c docs [] 0 s) = r
            \<and> events (snd (clone_docs bw T c docs [] 0 s)) = events s @ E" by blast
  show ?thesis
  proof (cases r)
    case (Inl e)
    show ?thesis
    proof (intro exI [of _ "Some e"] exI [of _ "Log ?m # E"] allI)
      fix s
      show "fst (clone_collection bw T c docs s) = Some e
         \<and> events (snd (clone_collection bw T c docs s)) = events s @ Log ?m # E"
        using cd [rule_format, of "log ?m s"] Inl
        by (cases "clone_docs bw T c docs [] 0 (log ?m s)") (simp add: clone_collection_def)
    qed
  next
    case (Inr p)
    obtain pending n' where p: "p = (pending, n')" by force
    from flush_rest_indep [OF assms, of c pending n'] obtain r' E' where
      fr: "\<forall>s. fst (flush_rest bw c pending n' s) = r'
            \<and> events (snd (flush_rest bw c pending n' s)) = events s @ E'" by blast
    show ?thesis
    proof (intro exI [of _ r'] exI [of _ "Log ?m # E @ E'"] allI)
      fix s
      obtain t where t: "clone_docs bw T c docs [] 0 (log ?m s) = (Inr (pending, n'), t)"
        using cd [rule_format, of "log ?m s"] Inr p
        by (cases "clone_docs bw T c docs [] 0 (log ?m s)") simp
      have "events t = events s @ Log ?m # E"
        using cd [rule_format, of "log ?m s"] t by simp
      then show "fst (clone_collection bw T c docs s) = r'
         \<and> events (snd (clone_collection bw T c docs s)) = events s @ Log ?m # E @ E'"
        using t fr [rule_format, of t] by (simp add: clone_collection_def)
    qed
  qed
qed

lemma restore_file_indep:
  assumes "never_raises bw"
  shows "\<exists>r E. \<forall>s. fst (restore_file bw dec T name f s) = r
                  \<and> events (snd (restore_file bw dec T name f s)) = events s @ E"
proof -
  let ?c = "take (length name - 5) name"
  let ?m = "''Importing collection: '' @ ?c"
  from restore_lines_indep [OF assms, of dec T ?c f "[]" 0] obtain r E where
    cd: "\<forall>s. fst (restore_lines bw dec T ?c f [] 0 s) = r
            \<and> events (snd (restore_lines bw dec T ?c f [] 0 s)) = events s @ E" by blast
  show ?thesis
  proof (cases r)
    case (Inl e)
    show ?thesis
    proof (intro exI [of _ "Some e"] exI [of _ "Log ?m # E"] allI)
      fix s
      show "fst (restore_file bw dec T name f s) = Some e
         \<and> events (snd (restore_file bw dec T name f s)) = events s @ Log ?m # E"
        using cd [rule_format, of "log ?m s"] Inl
        by (cases "restore_lines bw dec T ?c f [] 0 (log ?m s)") (simp add: restore_file_def)
    qed
  next
    case (Inr p)
    obtain pending n' where p: "p = (pending, n')" by force
    from flush_rest_indep [OF assms, of ?c pending n'] obtain r' E' where
      fr: "\<forall>s. fst (flush_rest bw ?c pending n' s) = r'
            \<and> events (snd (flush_rest bw ?c pending n' s)) = events s @ E'" by blast
    show ?thesis
    proof (intro exI [of _ r'] exI [of _ "Log ?m # E @ E'"] allI)
      fix s
      obtain t where t: "restore_lines bw dec T ?c f [] 0 (log ?m s) = (Inr (pending, n'), t)"
        using cd [rule_format, of "log ?m s"] Inr p
        by (cases "restore_lines bw dec T ?c f [] 0 (log ?m s)") simp
      have "events t = events s @ Log ?m # E"
        using cd [rule_format, of "log ?m s"] t by simp
      then show "fst (restore_file bw dec T name f s) = r'
         \<and> events (snd (restore_file bw dec T name f s)) = events s @ Log ?m # E @ E'"
        using t fr [rule_format, of t] by (simp add: restore_file_def)
    qed
  qed
qed

lemma clone_collections_indep:
  assumes "never_raises bw"
  shows "\<exists>r E. \<forall>s. fst (clone_collections bw T colls s) = r
                  \<and> events (snd (clone_collections bw T colls s)) = events s @ E"
proof (induction colls)
  case Nil
  show ?case by (intro exI [of _ None] exI [of _ "[]"]) simp
next
  case (Cons a colls)
  obtain c docs where a: "a = (c, docs)" by force
  from Cons.IH obtain r E where
    IH: "\<forall>s. fst (clone_collections bw T colls s) = r
            \<and> events (snd (clone_collections bw T colls s)) = events s @ E" by blast
  show ?case
  proof (cases "prefix ''system.'' c")
    case True
    then show ?thesis using IH a by (intro exI [of _ r] exI [of _ E]) simp
  next
    case False
    from clone_collection_indep [OF assms, of T c docs] obtain r1 E1 where
      cc: "\<forall>s. fst (clone_collection bw T c docs s) = r1
            \<and> events (snd (clone_collection bw T c docs s)) = events s @ E1" by blast
    show ?thesis
    proof (cases r1)
      case (Some e)
      show ?thesis
      proof (intro exI [of _ "Some e"] exI [of _ E1] allI)
        fix s
        show "fst (clone_collections bw T (a # colls) s) = Some e
           \<and> events (snd (clone_collections bw T (a # colls) s)) = events s @ E1"
          using cc [rule_format, of s] Some a False
          by (cases "clone_collection bw T c docs s") simp
      qed
    next
      case None
      show ?thesis
      proof (intro exI [of _ r] exI [of _ "E1 @ E"] allI)
        fix s
        obtain t where t: "clone_collection bw T c docs s = (None, t)"
          using cc [rule_format, of s] None by (cases "clone_collection bw T c docs s") simp
        have "events t = events s @ E1" using cc [rule_format, of s] t by simp
        then show "fst (clone_collections bw T (a # colls) s) = r
           \<and> events (snd (clone_collections bw T (a # colls) s)) = events s @ E1 @ E"
          using t a False IH [rule_format, of t] by simp
      qed
    qed
  qed
qed

lemma restore_files_indep:
  assumes "never_raises bw"
  shows "\<exists>r E. \<forall>s. fst (restore_files bw dec T listdir s) = r
                  \<and> events (snd (restore_files bw dec T listdir s)) = events s @ E"
proof (induction listdir)
  case Nil
  show ?case by (intro exI [of _ None] exI [of _ "[]"]) simp
next
  case (Cons a listdir)
  obtain name f where a: "a = (name, f)" by force
  from Cons.IH obtain r E where
    IH: "\<forall>s. fst (restore_files bw dec T listdir s) = r
            \<and> events (snd (restore_files bw dec T listdir s)) = events s @ E" by blast
  show ?case
  proof (cases "suffix ''.json'' name")
    case False
    then show ?thesis using IH a by (intro exI [of _ r] exI [of _ E]) simp
  next
    case True
    from restore_file_indep [OF assms, of dec T name f] obtain r1 E1 where
      cc: "\<forall>s. fst (restore_file bw dec T name f s) = r1
            \<and> events (snd (restore_file bw dec T name f s)) = events s @ E1" by blast
    show ?thesis
    proof (cases r1)
      case (Some e)
      show ?thesis
      proof (intro exI [of _ "Some e"] exI [of _ E1] allI)
        fix s
        show "fst (restore_files bw dec T (a # listdir) s) = Some e
           \<and> events (snd (restore_files bw dec T (a # listdir) s)) = events s @ E1"
          using cc [rule_format, of s] Some a True
          by (cases "restore_file bw dec T name f s") simp
      qed
    next
      case None
      show ?thesis
      proof (intro exI [of _ r] exI [of _ "E1 @ E"] allI)
        fix s
        obtain t where t: "restore_file bw dec T name f s = (None, t)"
          using cc [rule_format, of s] None by (cases "restore_file bw dec T name f s") simp
        have "events t = events s @ E1" using cc [rule_format, of s] t by simp
        then show "fst (restore_files bw dec T (a # listdir) s) = r
           \<and> events (snd (restore_files bw dec T (a # listdir) s)) = events s @ E1 @ E"
          using t a True IH [rule_format, of t] by simp
      qed
    qed
  qed
qed

lemma direct_clone_indep:
  fixes bw :: "('a, 'h) driver"
  assumes "never_raises bw"
  shows "\<exists>st E. \<forall>s. fst (direct_clone bw source T su sd du dd s) = st
                  \<and> emitted s (snd (direct_clone bw source T su sd du dd s)) = E"
proof (cases "source (clean_uri su) sd")
  case (Inl e)
  show ?thesis
    by (intro exI [of _ 1] exI [of _ "start_clone su sd du dd @ [Log (''ERROR: '' @ str_error e)]"])
       (simp add: direct_clone_def direct_clone_body_def boundary_def Inl emitted_def start_clone_def)
next
  case (Inr colls)
  from clone_collections_indep [OF assms, of T colls] obtain r E where
    cc: "\<forall>s. fst (clone_collections bw T colls s) = r
            \<and> events (snd (clone_collections bw T colls s)) = events s @ E" by blast
  let ?L = "case r of None \<Rightarrow> Log ''Direct clone completed successfully.''
                    | Some e \<Rightarrow> Log (''ERROR: '' @ str_error e)"
  show ?thesis
  proof (intro exI [of _ "case r of None \<Rightarrow> 0 | Some e \<Rightarrow> 1"]
               exI [of _ "start_clone su sd du dd @ E @ [?L]"] allI)
    fix s :: "('a, 'h) state"
    let ?s2 = "log (''Starting direct clone from '' @ sd @ '' to '' @ dd)
                 (connect (clean_uri du) (connect (clean_uri su) s))"
    obtain t where t: "clone_collections bw T colls ?s2 = (r, t)"
      using cc [rule_format, of ?s2] by (cases "clone_collections bw T colls ?s2") simp
    have ev: "events t = events s @ start_clone su sd du dd @ E"
      using cc [rule_format, of ?s2] t by (simp add: start_clone_def)
    show "fst (direct_clone bw source T su sd du dd s) = (case r of None \<Rightarrow> 0 | Some e \<Rightarrow> 1)
       \<and> emitted s (snd (direct_clone bw source T su sd du dd s)) = start_clone su sd du dd @ E @ [?L]"
      using Inr t ev
      by (cases r) (simp_all add: direct_clone_def direct_clone_body_def boundary_def emitted_def)
  qed
qed

lemma restore_from_file_indep:
  fixes bw :: "('a, 'h) driver"
  assumes "never_raises bw"
  shows "\<exists>st E. \<forall>s. fst (restore_from_file bw dec files T uri db p s) = st
                  \<and> emitted s (snd (restore_from_file bw dec files T uri db p s)) = E"
proof (cases "files p")
  case None
  show ?thesis
    by (intro exI [of _ 1]
          exI [of _ "start_restore uri db p @ [Log (''ERROR: '' @ p @ '' is not a directory.'')]"])
       (simp add: restore_from_file_no_dir [of files p, OF None] emitted_def)
next
  case (Some listdir)
  from restore_files_indep [OF assms, of dec T listdir] obtain r E where
    cc: "\<forall>s. fst (restore_files bw dec T listdir s) = r
            \<and> events (snd (restore_files bw dec T listdir s)) = events s @ E" by blast
  let ?L = "case r of None \<Rightarrow> Log ''Restore completed successfully.''
                    | Some e \<Rightarrow> Log (''ERROR: '' @ str_error e)"
  show ?thesis
  proof (intro exI [of _ "case r of None \<Rightarrow> 0 | Some e \<Rightarrow> 1"]
               exI [of _ "start_restore uri db p @ E @ [?L]"] allI)
    fix s :: "('a, 'h) state"
    let ?s2 = "log (''Restoring database '' @ db @ '' from '' @ p) (connect (clean_uri uri) s)"
    obtain t where t: "restore_files bw dec T listdir ?s2 = (r, t)"
      using cc [rule_format, of ?s2] by (cases "restore_files bw dec T listdir ?s2") simp
    have ev: "events t = events s @ start_restore uri db p @ E"
      using cc [rule_format, of ?s2] t by (simp add: start_restore_def)
    show "fst (restore_from_file bw dec files T uri db p s) = (case r of None \<Rightarrow> 0 | Some e \<Rightarrow> 1)
       \<and> emitted s (snd (restore_from_file bw dec files T uri db p s)) = start_restore uri db p @ E @ [?L]"
      using Some t ev
      by (cases r)
         (simp_all add: restore_from_file_def restore_from_file_body_def boundary_def emitted_def)
  qed
qed

subsection \<open>Upserts applied again\<close>

lemma map_add_twice: "(a ++ w) ++ w = a ++ w"
  by (rule ext) (simp add: map_add_def split: option.splits)

lemma upsert_add: "upsert op m = m ++ upsert op Map.empty"
  by (simp add: upsert_def)

lemma fold_upsert: "fold upsert ops m = m ++ fold upsert ops Map.empty"
proof (induction ops arbitrary: m)
  case Nil
  show ?case by simp
next
  case (Cons op ops)
  have "fold upsert (op # ops) m = fold upsert ops (upsert op m)" by simp
  also have "\<dots> = upsert op m ++ fold upsert ops Map.empty" by (rule Cons)
  also have "\<dots> = (m ++ upsert op Map.empty) ++ fold upsert ops Map.empty"
    by (subst upsert_add) (rule refl)
  also have "\<dots> = m ++ (upsert op Map.empty ++ fold upsert ops Map.empty)"
    by (rule map_add_assoc [symmetric])
  also have "upsert op Map.empty ++ fold upsert ops Map.empty = fold upsert ops (upsert op Map.empty)"
    by (rule Cons [symmetric])
  also have "fold upsert ops (upsert op Map.empty) = fold upsert (op # ops) Map.empty" by simp
  finally show ?case .
qed

lemma fold_upsert_twice: "fold upsert ops (fold upsert ops m) = fold upsert ops m"
proof -
  have "fold upsert ops (fold upsert ops m) = fold upsert ops m ++ fold upsert ops Map.empty"
    by (rule fold_upsert)
  also have "\<dots> = (m ++ fold upsert ops Map.empty) ++ fold upsert ops Map.empty"
    by (subst fold_upsert) (rule refl)
  also have "\<dots> = m ++ fold upsert ops Map.empty" by (rule map_add_twice)
  also have "\<dots> = fold upsert ops m" by (rule fold_upsert [symmetric])
  finally show ?thesis .
qed

lemma replay_mem:
  "replay mem_bulk_write h E c = h c ++ replay mem_bulk_write empty_db E c"
proof (induction E arbitrary: h)
  case Nil
  show ?case by (simp add: empty_db_def)
next
  case (Cons ev E)
  show ?case
  proof (cases ev)
    case (BulkWrite c' ops)
    define h1 where "h1 = h(c' := fold upsert ops (h c'))"
    define e1 :: "'a database" where "e1 = empty_db(c' := fold upsert ops (empty_db c'))"
    have st: "h1 c = h c ++ e1 c"
    proof (cases "c = c'")
      case True
      then show ?thesis
        using fold_upsert [of ops "h c'"] by (simp add: h1_def e1_def empty_db_def)
    next
      case False
      then show ?thesis by (simp add: h1_def e1_def empty_db_def)
    qed
    have "replay mem_bulk_write h (ev # E) c = replay mem_bulk_write h1 E c"
      by (simp add: BulkWrite mem_bulk_write_def h1_def)
    also have "\<dots> = h1 c ++ replay mem_bulk_write empty_db E c" by (rule Cons)
    also have "\<dots> = (h c ++ e1 c) ++ replay mem_bulk_write empty_db E c" by (simp only: st)
    also have "\<dots> = h c ++ (e1 c ++ replay mem_bulk_write empty_db E c)" by (rule map_add_assoc [symmetric])
    also have "e1 c ++ replay mem_bulk_write empty_db E c = replay mem_bulk_write e1 E c"
      by (rule Cons [symmetric])
    also have "replay mem_bulk_write e1 E c = replay mem_bulk_write empty_db (ev # E) c"
      by (simp add: BulkWrite mem_bulk_write_def e1_def)
    finally show ?thesis .
  next
    case (Connect u)
    have "replay mem_bulk_write h E c = h c ++ replay mem_bulk_write empty_db E c" by (rule Cons)
    then show ?thesis by (simp only: Connect replay.simps)
  next
    case (Log m)
    have "replay mem_bulk_write h E c = h c ++ replay mem_bulk_write empty_db E c" by (rule Cons)
    then show ?thesis by (simp only: Log replay.simps)
  qed
qed

lemma replay_mem_twice:
  "replay mem_bulk_write (replay mem_bulk_write h E) E = replay mem_bulk_write h E"
proof
  fix c
  have "replay mem_bulk_write (replay mem_bulk_write h E) E c
          = replay mem_bulk_write h E c ++ replay mem_bulk_write empty_db E c"
    by (rule replay_mem)
  also have "\<dots> = (h c ++ replay mem_bulk_write empty_db E c) ++ replay mem_bulk_write empty_db E c"
    by (subst replay_mem) (rule refl)
  also have "\<dots> = h c ++ replay mem_bulk_write empty_db E c" by (rule map_add_twice)
  also have "\<dots> = replay mem_bulk_write h E c" by (rule replay_mem [symmetric])
  finally show "replay mem_bulk_write (replay mem_bulk_write h E) E c = replay mem_bulk_write h E c" .
qed

lemma upsert_idem: "upsert u (upsert u m) = upsert u m"
  by (simp add: upsert_def)

lemma funpow_upsert: "((upsert u) ^^ (Suc n)) m = upsert u m"
proof (induction n)
  case 0
  show ?case by simp
next
  case (Suc n)
  have "((upsert u) ^^ (Suc (Suc n))) m = upsert u (((upsert u) ^^ (Suc n)) m)" by simp
  also have "\<dots> = upsert u (upsert u m)" by (simp only: Suc)
  also have "\<dots> = upsert u m" by (rule upsert_idem)
  finally show ?case .
qed

lemma mem_bulk_write_twice:
  "mem_bulk_write (fst (mem_bulk_write db c ops)) c ops = mem_bulk_write db c ops"
  by (simp add: mem_bulk_write_def fold_upsert_twice)

subsection \<open>The files a dump writes\<close>








subsection \<open>A restore that meets no exception\<close>




subsection \<open>The destination a successful restore builds\<close>

lemma replay_writes:
  "replay bw h E = fold (\<lambda>cb h. fst (bw h (fst cb) (snd cb))) (writes E) h"
  by (induction bw h E rule: replay.induct) simp_all

lemma fold_mem_batches:
  "fold (\<lambda>cb h. fst (mem_bulk_write h (fst cb) (snd cb))) (map (Pair c) bs) h
     = h(c := fold upsert (concat bs) (h c))"
  by (induction bs arbitrary: h) (simp_all add: mem_bulk_write_def)


lemma replay_cloning:
  "replay mem_bulk_write h (cloning T (c, us)) = h(c := fold upsert us (h c))"
  by (simp add: replay_writes cloning_def writes_collection_events fold_mem_batches
      batches_concat)





subsection \<open>The directory of a dump, read back\<close>

lemma coll_of_json [simp]: "coll_of (c @ ''.json'') = c"
  by (simp add: coll_of_def)

lemma suffix_json [simp]: "suffix ''.json'' (c @ ''.json'')"
  by (rule suffixI) (rule refl)






lemma upserts_total:
  "\<forall>d \<in> set docs. map_of d ''_id'' \<noteq> None \<Longrightarrow> \<forall>d \<in> set docs. \<exists>op. upsert_op (Mapping d) = Inr op"
  by (auto simp: upsert_op_def split: option.splits)


lemma replay_start_restore [simp]: "replay bw h (start_restore uri db p) = h"
  by (simp add: start_restore_def)

subsection \<open>Dump, then restore into an empty destination\<close>



subsection \<open>Numbers and strings, written and read back\<close>

lemma digit_props: "d < 10 \<Longrightarrow> is_digit (digit d) \<and> digit_val (digit d) = d"
proof -
  assume "d < 10"
  then have "d \<in> {0, 1, 2, 3, 4, 5, 6, 7, 8, 9}" by auto
  then show ?thesis
    by (elim insertE emptyE) (simp_all add: digit_def is_digit_def digit_val_def)
qed

lemma str_nat_props:
  "list_all is_digit (str_nat n) \<and> str_nat n \<noteq> []
     \<and> fold (\<lambda>d m. 10 * m + digit_val d) (str_nat n) 0 = n"
proof (induction n rule: str_nat.induct)
  case (1 n)
  show ?case
  proof (cases "n < 10")
    case True
    then show ?thesis using digit_props [of n] by (subst (1 2 3) str_nat.simps) simp
  next
    case False
    have m: "n mod 10 < 10" by simp
    have "10 * (n div 10) + n mod 10 = n" by simp
    then show ?thesis
      using False 1 [OF False] digit_props [OF m]
      by (subst (1 2 3) str_nat.simps) simp
  qed
qed

lemma not_digit [simp]: "\<not> is_digit CHR '';''" "\<not> is_digit CHR ''$''"
  by (simp_all add: is_digit_def)

lemma get_put_nat [simp]: "get_nat (put_nat n @ rest) = Some (n, rest)"
proof -
  have a: "list_all is_digit (str_nat n)" and ne: "str_nat n \<noteq> []"
    and v: "fold (\<lambda>d m. 10 * m + digit_val d) (str_nat n) 0 = n"
    using str_nat_props [of n] by simp_all
  have all: "\<forall>x \<in> set (str_nat n). is_digit x" using a by (simp add: list_all_iff)
  have t: "takeWhile is_digit (str_nat n @ CHR '';'' # rest) = str_nat n"
    using all by (simp add: takeWhile_append2)
  have d: "dropWhile is_digit (str_nat n @ CHR '';'' # rest) = CHR '';'' # rest"
    using all by (simp add: dropWhile_append2)
  show ?thesis by (simp add: get_nat_def put_nat_def t d ne v)
qed

lemma get_put_int [simp]: "get_int (put_int i @ rest) = Some (i, rest)"
  by (simp add: put_int_def)

lemma of_char_less: "(of_char c :: nat) < 256"
  using of_char_mod_256 [of c, where ?'a = nat] by (metis mod_less_divisor zero_less_numeral)

lemma get_put_chars:
  "get_chars (length s) (concat (map (\<lambda>c. put_nat (of_char c)) s) @ rest) = Some (s, rest)"
  by (induction s) (simp_all add: of_char_less)

lemma get_put_str [simp]: "get_str (put_str s @ rest) = Some (s, rest)"
  by (simp add: get_str_def put_str_def get_put_chars)

lemma strip_append [simp]: "strip p (p @ r) = Some r"
  by (simp add: strip_def)

lemma put_nat_first: "\<exists>d r. put_nat n @ rest = d # r \<and> is_digit d"
proof -
  obtain d ds where s: "str_nat n = d # ds" using str_nat_props [of n] by (cases "str_nat n") auto
  then have "is_digit d" using str_nat_props [of n] by simp
  then show ?thesis using s by (simp add: put_nat_def)
qed

lemma not_dollar_put_nat [simp]: "\<not> prefix ''$'' (put_nat n @ rest)"
proof -
  obtain d r where "put_nat n @ rest = d # r" "is_digit d" using put_nat_first [of n rest] by blast
  then show ?thesis by auto
qed

subsection \<open>Scalars\<close>


subsection \<open>Values\<close>


lemma strip_one [simp]: "strip [c] (c # r) = Some r"
  by (simp add: strip_def)








subsection \<open>One line\<close>





section \<open>Claims\<close>

subsection \<open>C1: Idempotent replication\<close>

text \<open>
  C1. Replication is idempotent. On the destination in memory, an upsert applied once or
  any number of times leaves the same collection, and so does a whole batch sent again,
  which reports no failure. For every source, destination, threshold and arguments,
  \<open>direct_clone\<close> run a second time on the state the first run left returns the same status
  and leaves the same destination; the same holds for \<open>restore_from_file\<close>.
\<close>

theorem replication_idempotent:
  "((upsert u) ^^ (Suc n)) coll = upsert u coll
   \<and> mem_bulk_write (fst (mem_bulk_write db coll_name batch_ops)) coll_name batch_ops
       = mem_bulk_write db coll_name batch_ops
   \<and> snd (mem_bulk_write db coll_name batch_ops) = None
   \<and> fst (direct_clone mem_bulk_write source T src_uri src_db_name dst_uri dst_db_name
            (snd (direct_clone mem_bulk_write source T src_uri src_db_name dst_uri dst_db_name s)))
       = fst (direct_clone mem_bulk_write source T src_uri src_db_name dst_uri dst_db_name s)
   \<and> handle (snd (direct_clone mem_bulk_write source T src_uri src_db_name dst_uri dst_db_name
            (snd (direct_clone mem_bulk_write source T src_uri src_db_name dst_uri dst_db_name s))))
       = handle (snd (direct_clone mem_bulk_write source T src_uri src_db_name dst_uri dst_db_name s))
   \<and> fst (restore_from_file mem_bulk_write dec files T uri db_name path
            (snd (restore_from_file mem_bulk_write dec files T uri db_name path s)))
       = fst (restore_from_file mem_bulk_write dec files T uri db_name path s)
   \<and> handle (snd (restore_from_file mem_bulk_write dec files T uri db_name path
            (snd (restore_from_file mem_bulk_write dec files T uri db_name path s))))
       = handle (snd (restore_from_file mem_bulk_write dec files T uri db_name path s))"
proof -
  let ?dc = "direct_clone mem_bulk_write source T src_uri src_db_name dst_uri dst_db_name"
  let ?rf = "restore_from_file mem_bulk_write dec files T uri db_name path"
  from direct_clone_indep [OF never_raises_mem, of source T src_uri src_db_name dst_uri dst_db_name]
  obtain st E where dc: "\<forall>u. fst (?dc u) = st \<and> emitted u (snd (?dc u)) = E" by blast
  have d1: "handle (snd (?dc s)) = replay mem_bulk_write (handle s) E"
    using direct_clone_replay [of mem_bulk_write source T src_uri src_db_name dst_uri dst_db_name s]
      dc [rule_format, of s] by simp
  have d2: "handle (snd (?dc (snd (?dc s)))) = replay mem_bulk_write (handle (snd (?dc s))) E"
    using direct_clone_replay [of mem_bulk_write source T src_uri src_db_name dst_uri dst_db_name
        "snd (?dc s)"] dc [rule_format, of "snd (?dc s)"] by simp
  have dh: "handle (snd (?dc (snd (?dc s)))) = handle (snd (?dc s))"
    unfolding d2 d1 by (rule replay_mem_twice)
  have ds: "fst (?dc (snd (?dc s))) = fst (?dc s)"
    using dc [rule_format, of s] dc [rule_format, of "snd (?dc s)"] by simp
  from restore_from_file_indep [OF never_raises_mem, of dec files T uri db_name path]
  obtain st' E' where rf: "\<forall>u. fst (?rf u) = st' \<and> emitted u (snd (?rf u)) = E'" by blast
  have r1: "handle (snd (?rf s)) = replay mem_bulk_write (handle s) E'"
    using restore_from_file_replay [of mem_bulk_write dec files T uri db_name path s]
      rf [rule_format, of s] by simp
  have r2: "handle (snd (?rf (snd (?rf s)))) = replay mem_bulk_write (handle (snd (?rf s))) E'"
    using restore_from_file_replay [of mem_bulk_write dec files T uri db_name path "snd (?rf s)"]
      rf [rule_format, of "snd (?rf s)"] by simp
  have rh: "handle (snd (?rf (snd (?rf s)))) = handle (snd (?rf s))"
    unfolding r2 r1 by (rule replay_mem_twice)
  have rs: "fst (?rf (snd (?rf s))) = fst (?rf s)"
    using rf [rule_format, of s] rf [rule_format, of "snd (?rf s)"] by simp
  have b: "snd (mem_bulk_write db coll_name batch_ops) = None"
    by (simp add: mem_bulk_write_def)
  show ?thesis
    using funpow_upsert [where u = u and n = n and m = coll] mem_bulk_write_twice [of db coll_name batch_ops] b dh ds rh rs
    by blast
qed

lemma scenario_users:
  "direct_clone mem_bulk_write shop batch_size ''mongodb://10.0.0.15.:27017'' ''shop''
       ''mongodb://10.0.0.16:27017'' ''copy'' (fresh empty_db) =
     (0, \<lparr>handle = empty_db(''users'' := [Atom (Integer 1) \<mapsto> Mapping (users ! 0),
                                          Atom (Integer 2) \<mapsto> Mapping (users ! 1)]),
          events = [Connect ''mongodb://10.0.0.15:27017'', Connect ''mongodb://10.0.0.16:27017'',
                    Log ''Starting direct clone from shop to copy'',
                    Log ''Cloning collection: users'',
                    BulkWrite ''users'' [ReplaceOne (Atom (Integer 1)) (Mapping (users ! 0)),
                                         ReplaceOne (Atom (Integer 2)) (Mapping (users ! 1))],
                    Log ''  Finished users with 2 documents.'',
                    Log ''Direct clone completed successfully.'']\<rparr>)"
  by (simp add: direct_clone_def direct_clone_body_def boundary_def shop_def Let_def
      clone_collection_def users_def upsert_op_def batch_size_def flush_rest_def bulk_write_def
      mem_bulk_write_def fresh_def log_def connect_def upsert_def empty_db_def str_nat.simps digit_def)

subsection \<open>C2: Round trip of dump and restore\<close>




subsection \<open>C3: Batching boundary\<close>

text \<open>
  C3. Batching boundary. For one collection that \<open>direct_clone\<close> processes without an
  exception, with a threshold \<open>T > 0\<close> (1000 by default): exactly \<open>T\<close> documents give one
  flush of size \<open>T\<close>; \<open>T + 1\<close> documents give a flush of size \<open>T\<close>, then one of size 1;
  \<open>T - 1\<close> documents, when \<open>T \<ge> 2\<close>, give one flush of size \<open>T - 1\<close>; every flush holds
  between 1 and \<open>T\<close> operations, and when the collection is left the flushes have carried
  all its documents. The bound on the flushes holds for every run of \<open>direct_clone\<close>,
  failed or not; and in a run that returns 0 the events of the collections follow each
  other in whole blocks, each with all the flushes of its collection, so that the last
  partial batch of a collection is flushed before the next collection starts.
\<close>

theorem batching_boundary:
  "(fst (clone_collection bw T coll_name cursor s) = None \<and> 0 < T \<longrightarrow>
      (length cursor = T \<longrightarrow>
         flush_sizes (emitted s (snd (clone_collection bw T coll_name cursor s))) = [T])
    \<and> (length cursor = T + 1 \<longrightarrow>
         flush_sizes (emitted s (snd (clone_collection bw T coll_name cursor s))) = [T, 1])
    \<and> (2 \<le> T \<and> length cursor = T - 1 \<longrightarrow>
         flush_sizes (emitted s (snd (clone_collection bw T coll_name cursor s))) = [T - 1])
    \<and> list_all (\<lambda>n. 0 < n \<and> n \<le> T)
         (flush_sizes (emitted s (snd (clone_collection bw T coll_name cursor s))))
    \<and> sum_list (flush_sizes (emitted s (snd (clone_collection bw T coll_name cursor s))))
         = length cursor)
   \<and> (0 < T \<longrightarrow>
        list_all (\<lambda>n. 0 < n \<and> n \<le> T)
          (flush_sizes (emitted s
             (snd (direct_clone bw source T src_uri src_db_name dst_uri dst_db_name s)))))
   \<and> (fst (direct_clone bw source T src_uri src_db_name dst_uri dst_db_name s) = 0 \<and> 0 < T \<longrightarrow>
        (\<exists>collections uss.
            source (clean_uri src_uri) src_db_name = Inr collections
          \<and> list_all2 (\<lambda>cd us. upserts (map Mapping (snd cd)) us) (transferred collections) uss
          \<and> emitted s (snd (direct_clone bw source T src_uri src_db_name dst_uri dst_db_name s))
              = start_clone src_uri src_db_name dst_uri dst_db_name
                @ concat (map (cloning T) (zip (map fst (transferred collections)) uss))
                @ [Log ''Direct clone completed successfully.'']))
   \<and> (0 < T \<longrightarrow> writes (cloning T (coll_name, us)) = map (Pair coll_name) (batches T us)
               \<and> concat (batches T us) = us)"
proof (intro conjI impI)
  assume a: "fst (clone_collection bw T coll_name cursor s) = None \<and> 0 < T"
  then have T: "0 < T" by simp
  from clone_collection_emitted [of bw T coll_name cursor s] a obtain us where
    us: "upserts (map Mapping cursor) us"
      "emitted s (snd (clone_collection bw T coll_name cursor s))
         = Log (''Cloning collection: '' @ coll_name) # collection_events ''Processed'' T coll_name us"
    by auto
  have len: "length us = length cursor" using upserts_length [OF us(1)] by simp
  have fs: "flush_sizes (emitted s (snd (clone_collection bw T coll_name cursor s)))
              = map length (batches T us)"
    using flush_sizes_collection [OF T] us(2) by simp
  show "flush_sizes (emitted s (snd (clone_collection bw T coll_name cursor s))) = [T]"
    if "length cursor = T"
    using that fs len batches_exact [OF T, of us] by simp
  show "flush_sizes (emitted s (snd (clone_collection bw T coll_name cursor s))) = [T, 1]"
    if "length cursor = T + 1"
    using that fs len batches_one_more [OF T, of us] by simp
  show "flush_sizes (emitted s (snd (clone_collection bw T coll_name cursor s))) = [T - 1]"
    if "2 \<le> T \<and> length cursor = T - 1"
    using that fs len batches_one_less [of T us] by simp
  show "list_all (\<lambda>n. 0 < n \<and> n \<le> T)
         (flush_sizes (emitted s (snd (clone_collection bw T coll_name cursor s))))"
    using fs batches_bound [OF T, of _ us] by (auto simp: list_all_iff)
  show "sum_list (flush_sizes (emitted s (snd (clone_collection bw T coll_name cursor s))))
         = length cursor"
    using fs len sum_list_batches [of T us] by simp
next
  assume T: "0 < T"
  show "list_all (\<lambda>n. 0 < n \<and> n \<le> T)
          (flush_sizes (emitted s
             (snd (direct_clone bw source T src_uri src_db_name dst_uri dst_db_name s))))"
    using direct_clone_replay [of bw source T src_uri src_db_name dst_uri dst_db_name s] T
    by (auto simp: list_all_iff flush_sizes_def)
next
  assume "fst (direct_clone bw source T src_uri src_db_name dst_uri dst_db_name s) = 0 \<and> 0 < T"
  then show "\<exists>collections uss.
            source (clean_uri src_uri) src_db_name = Inr collections
          \<and> list_all2 (\<lambda>cd us. upserts (map Mapping (snd cd)) us) (transferred collections) uss
          \<and> emitted s (snd (direct_clone bw source T src_uri src_db_name dst_uri dst_db_name s))
              = start_clone src_uri src_db_name dst_uri dst_db_name
                @ concat (map (cloning T) (zip (map fst (transferred collections)) uss))
                @ [Log ''Direct clone completed successfully.'']"
    using direct_clone_ok [of bw source T src_uri src_db_name dst_uri dst_db_name s] by simp
next
  assume "0 < T"
  show "writes (cloning T (coll_name, us)) = map (Pair coll_name) (batches T us)"
    by (simp add: cloning_def writes_collection_events)
  show "concat (batches T us) = us" by (rule batches_concat)
qed

theorem batching_boundary_witness:
  "fst (clone_collection mem_bulk_write batch_size ''users'' (numbered 1000) (fresh empty_db)) = None
   \<and> 0 < batch_size \<and> length (numbered 1000) = batch_size
   \<and> flush_sizes (emitted (fresh empty_db)
        (snd (clone_collection mem_bulk_write batch_size ''users'' (numbered 1000) (fresh empty_db))))
       = [1000]
   \<and> fst (clone_collection mem_bulk_write batch_size ''users'' (numbered 1001) (fresh empty_db)) = None
   \<and> length (numbered 1001) = batch_size + 1
   \<and> flush_sizes (emitted (fresh empty_db)
        (snd (clone_collection mem_bulk_write batch_size ''users'' (numbered 1001) (fresh empty_db))))
       = [1000, 1]
   \<and> fst (clone_collection mem_bulk_write batch_size ''users'' (numbered 999) (fresh empty_db)) = None
   \<and> 2 \<le> batch_size \<and> length (numbered 999) = batch_size - 1
   \<and> flush_sizes (emitted (fresh empty_db)
        (snd (clone_collection mem_bulk_write batch_size ''users'' (numbered 999) (fresh empty_db))))
       = [999]
   \<and> fst (direct_clone mem_bulk_write shop batch_size ''mongodb://10.0.0.15.:27017'' ''shop''
            ''mongodb://10.0.0.16:27017'' ''copy'' (fresh empty_db)) = 0"
proof -
  note b = batching_boundary [where bw = mem_bulk_write and T = batch_size and coll_name = "''users''"
      and s = "fresh (empty_db :: scalar database)" and source = shop
      and src_uri = "''mongodb://10.0.0.15.:27017''" and src_db_name = "''shop''"
      and dst_uri = "''mongodb://10.0.0.16:27017''" and dst_db_name = "''copy''" and us = "[]"]
  have T: "0 < batch_size" "2 \<le> batch_size" by (simp_all add: batch_size_def)
  have l: "length (numbered 1000) = batch_size" "length (numbered 1001) = batch_size + 1"
    "length (numbered 999) = batch_size - 1"
    by (simp_all add: batch_size_def)
  have ok: "fst (direct_clone mem_bulk_write shop batch_size ''mongodb://10.0.0.15.:27017'' ''shop''
            ''mongodb://10.0.0.16:27017'' ''copy'' (fresh empty_db)) = 0"
    by (simp add: direct_clone_def direct_clone_body_def boundary_def shop_def Let_def
        clone_collection_def users_def upsert_op_def batch_size_def flush_rest_def bulk_write_def
        mem_bulk_write_def split: prod.splits)
  have c0: "fst (clone_collection mem_bulk_write batch_size ''users'' (numbered 1000) (fresh empty_db)) = None"
    and c1: "fst (clone_collection mem_bulk_write batch_size ''users'' (numbered 1001) (fresh empty_db)) = None"
    and c9: "fst (clone_collection mem_bulk_write batch_size ''users'' (numbered 999) (fresh empty_db)) = None"
    by (rule numbered_cloned)+
  have r0: "flush_sizes (emitted (fresh empty_db)
        (snd (clone_collection mem_bulk_write batch_size ''users'' (numbered 1000) (fresh empty_db))))
       = [batch_size]"
    using b [where cursor = "numbered 1000"] c0 T l by blast
  have r1: "flush_sizes (emitted (fresh empty_db)
        (snd (clone_collection mem_bulk_write batch_size ''users'' (numbered 1001) (fresh empty_db))))
       = [batch_size, 1]"
    using b [where cursor = "numbered 1001"] c1 T l by blast
  have r9: "flush_sizes (emitted (fresh empty_db)
        (snd (clone_collection mem_bulk_write batch_size ''users'' (numbered 999) (fresh empty_db))))
       = [batch_size - 1]"
    using b [where cursor = "numbered 999"] c9 T l by blast
  show ?thesis
    using T l ok c0 c1 c9 r0 r1 r9 by (simp add: batch_size_def)
qed

subsection \<open>C4: System collections\<close>

text \<open>
  C4. System-collection exclusion does not hold in \<open>restore_from_file\<close>: the loop over the
  directory tests the suffix of the file name only, so a dump file \<open>system.users.json\<close> is
  restored into the collection \<open>system.users\<close> of the destination.
\<close>

theorem restore_from_file_writes_system_collection:
  "restore_from_file mem_bulk_write toy_dec backup batch_size ''mongodb://10.0.0.16:27017''
       ''copy'' ''/backup/system'' (fresh empty_db) =
     (0, \<lparr>handle = empty_db(''system.users'' := [Atom (Integer 1) \<mapsto> Mapping (users ! 0)]),
          events = [Connect ''mongodb://10.0.0.16:27017'',
                    Log ''Restoring database copy from /backup/system'',
                    Log ''Importing collection: system.users'',
                    BulkWrite ''system.users'' [ReplaceOne (Atom (Integer 1)) (Mapping (users ! 0))],
                    Log ''  Finished system.users with 1 documents.'',
                    Log ''Restore completed successfully.'']\<rparr>)"
  by (simp add: restore_from_file_def restore_from_file_body_def boundary_def backup_def Let_def
      suffix_to_prefix restore_file_def toy_dec_def users_def blank_def isspace_def upsert_op_def
      batch_size_def flush_rest_def bulk_write_def mem_bulk_write_def fresh_def log_def connect_def
      upsert_def empty_db_def str_nat.simps digit_def)

subsection \<open>C5: Failure boundary of restore\<close>

text \<open>
  C5. Failure boundary of restore. A line that is not blank and does not decode, in a dump
  file of the directory, makes \<open>restore_from_file\<close> return status 1, and the call reads
  nothing after that line: the lines and files that follow do not change its result. The
  destination it returns is the one its \<open>bulk_write\<close> calls built, in order, none of them
  undone; in particular, when the run on the files before the failing one succeeds, the run
  on the whole directory starts with the same events and leaves the destination of that
  run, changed only by the batches it flushed afterwards. Blank lines are skipped: taking
  them out of the files changes nothing.
\<close>

theorem restore_failure_boundary:
  "(files path = Some listdir \<and> (filename, f) \<in> set listdir \<and> suffix ''.json'' filename
      \<and> line \<in> set f \<and> \<not> blank line \<and> dec line = Inl e
    \<longrightarrow> fst (restore_from_file bw dec files T uri db_name path s) = 1)
   \<and> (\<not> blank line \<and> dec line = Inl e \<and> suffix ''.json'' filename
      \<and> files path = Some (pre @ (filename, f1 @ line # f2) # post)
      \<and> files' path = Some (pre @ [(filename, f1 @ [line])])
    \<longrightarrow> restore_from_file bw dec files T uri db_name path s
          = restore_from_file bw dec files' T uri db_name path s)
   \<and> handle (snd (restore_from_file bw dec files T uri db_name path s))
       = replay bw (handle s) (emitted s (snd (restore_from_file bw dec files T uri db_name path s)))
   \<and> (files path = Some (pre @ rest) \<and> files' path = Some pre
      \<and> fst (restore_from_file bw dec files' T uri db_name path s) = 0
    \<longrightarrow> (\<exists>E. emitted s (snd (restore_from_file bw dec files T uri db_name path s))
               = butlast (emitted s (snd (restore_from_file bw dec files' T uri db_name path s))) @ E
            \<and> handle (snd (restore_from_file bw dec files T uri db_name path s))
               = replay bw (handle (snd (restore_from_file bw dec files' T uri db_name path s))) E))
   \<and> restore_from_file bw dec (without_blank_lines files) T uri db_name path s
       = restore_from_file bw dec files T uri db_name path s"
proof (intro conjI impI)
  assume "files path = Some listdir \<and> (filename, f) \<in> set listdir \<and> suffix ''.json'' filename
      \<and> line \<in> set f \<and> \<not> blank line \<and> dec line = Inl e"
  then show "fst (restore_from_file bw dec files T uri db_name path s) = 1"
    using restore_from_file_bad_line [of files path listdir filename f line dec bw T uri db_name s]
    by auto
next
  assume "\<not> blank line \<and> dec line = Inl e \<and> suffix ''.json'' filename
      \<and> files path = Some (pre @ (filename, f1 @ line # f2) # post)
      \<and> files' path = Some (pre @ [(filename, f1 @ [line])])"
  then show "restore_from_file bw dec files T uri db_name path s
          = restore_from_file bw dec files' T uri db_name path s"
    using restore_from_file_abort [of line dec e filename files path pre f1 f2 post files' bw T uri db_name s]
    by simp
next
  show "handle (snd (restore_from_file bw dec files T uri db_name path s))
       = replay bw (handle s) (emitted s (snd (restore_from_file bw dec files T uri db_name path s)))"
    using restore_from_file_replay [of bw dec files T uri db_name path s] by simp
next
  assume "files path = Some (pre @ rest) \<and> files' path = Some pre
      \<and> fst (restore_from_file bw dec files' T uri db_name path s) = 0"
  then show "\<exists>E. emitted s (snd (restore_from_file bw dec files T uri db_name path s))
               = butlast (emitted s (snd (restore_from_file bw dec files' T uri db_name path s))) @ E
            \<and> handle (snd (restore_from_file bw dec files T uri db_name path s))
               = replay bw (handle (snd (restore_from_file bw dec files' T uri db_name path s))) E"
    using restore_from_file_earlier [of files path pre rest files' bw dec T uri db_name s] by simp
next
  show "restore_from_file bw dec (without_blank_lines files) T uri db_name path s
       = restore_from_file bw dec files T uri db_name path s"
    by (rule restore_from_file_blank)
qed

lemma restore_garbled:
  "restore_from_file mem_bulk_write toy_dec backup batch_size ''mongodb://10.0.0.16:27017''
       ''copy'' ''/backup/garbled'' (fresh empty_db) =
     (1, \<lparr>handle = empty_db(''staff'' := [Atom (Integer 1) \<mapsto> Mapping (users ! 0)]),
          events = [Connect ''mongodb://10.0.0.16:27017'',
                    Log ''Restoring database copy from /backup/garbled'',
                    Log ''Importing collection: staff'',
                    BulkWrite ''staff'' [ReplaceOne (Atom (Integer 1)) (Mapping (users ! 0))],
                    Log ''  Finished staff with 1 documents.'',
                    Log ''Importing collection: users'',
                    Log ''ERROR: Expecting value: {_id: 3, na'']\<rparr>)"
  by (simp add: restore_from_file_def restore_from_file_body_def boundary_def backup_def Let_def
      suffix_to_prefix restore_file_def toy_dec_def users_def blank_def isspace_def upsert_op_def
      batch_size_def flush_rest_def bulk_write_def mem_bulk_write_def fresh_def log_def connect_def
      upsert_def empty_db_def str_nat.simps digit_def)

theorem restore_failure_boundary_witness:
  "backup ''/backup/garbled''
       = Some ([(''staff.json'', [''{_id: 1, name: A}''])]
               @ [(''users.json'', [''{_id: 2, name: B}'', ''{_id: 3, na''])])
   \<and> suffix ''.json'' ''users.json'' \<and> \<not> blank ''{_id: 3, na''
   \<and> toy_dec ''{_id: 3, na'' = Inl (DecodeError ''Expecting value: {_id: 3, na'')
   \<and> fst (restore_from_file mem_bulk_write toy_dec backup batch_size ''mongodb://10.0.0.16:27017''
            ''copy'' ''/backup/garbled'' (fresh empty_db)) = 1
   \<and> staff_only ''/backup/garbled'' = Some [(''staff.json'', [''{_id: 1, name: A}''])]
   \<and> fst (restore_from_file mem_bulk_write toy_dec staff_only batch_size ''mongodb://10.0.0.16:27017''
            ''copy'' ''/backup/garbled'' (fresh empty_db)) = 0
   \<and> (\<exists>E. emitted (fresh empty_db)
             (snd (restore_from_file mem_bulk_write toy_dec backup batch_size
                     ''mongodb://10.0.0.16:27017'' ''copy'' ''/backup/garbled'' (fresh empty_db)))
            = butlast (emitted (fresh empty_db)
                (snd (restore_from_file mem_bulk_write toy_dec staff_only batch_size
                        ''mongodb://10.0.0.16:27017'' ''copy'' ''/backup/garbled'' (fresh empty_db)))) @ E
          \<and> handle (snd (restore_from_file mem_bulk_write toy_dec backup batch_size
                     ''mongodb://10.0.0.16:27017'' ''copy'' ''/backup/garbled'' (fresh empty_db)))
            = replay mem_bulk_write
                (handle (snd (restore_from_file mem_bulk_write toy_dec staff_only batch_size
                        ''mongodb://10.0.0.16:27017'' ''copy'' ''/backup/garbled'' (fresh empty_db)))) E)"
proof -
  have h: "backup ''/backup/garbled''
       = Some ([(''staff.json'', [''{_id: 1, name: A}''])]
               @ [(''users.json'', [''{_id: 2, name: B}'', ''{_id: 3, na''])])"
    "suffix ''.json'' ''users.json''" "\<not> blank ''{_id: 3, na''"
    "toy_dec ''{_id: 3, na'' = Inl (DecodeError ''Expecting value: {_id: 3, na'')"
    "staff_only ''/backup/garbled'' = Some [(''staff.json'', [''{_id: 1, name: A}''])]"
    by (simp_all add: backup_def suffix_to_prefix blank_def isspace_def toy_dec_def staff_only_def)
  have ok: "fst (restore_from_file mem_bulk_write toy_dec staff_only batch_size
            ''mongodb://10.0.0.16:27017'' ''copy'' ''/backup/garbled'' (fresh empty_db)) = 0"
    by (simp add: restore_from_file_def restore_from_file_body_def boundary_def staff_only_def
        Let_def suffix_to_prefix restore_file_def toy_dec_def users_def blank_def isspace_def
        upsert_op_def batch_size_def flush_rest_def bulk_write_def mem_bulk_write_def
        split: prod.splits)
  show ?thesis
    using h ok restore_failure_boundary
      [where files = backup and path = "''/backup/garbled''"
         and listdir = "[(''staff.json'', [''{_id: 1, name: A}'']),
                         (''users.json'', [''{_id: 2, name: B}'', ''{_id: 3, na''])]"
         and filename = "''users.json''" and f = "[''{_id: 2, name: B}'', ''{_id: 3, na'']"
         and line = "''{_id: 3, na''" and dec = toy_dec
         and e = "DecodeError ''Expecting value: {_id: 3, na''"
         and bw = mem_bulk_write and T = batch_size and uri = "''mongodb://10.0.0.16:27017''"
         and db_name = "''copy''" and s = "fresh empty_db"
         and pre = "[(''staff.json'', [''{_id: 1, name: A}''])]"
         and rest = "[(''users.json'', [''{_id: 2, name: B}'', ''{_id: 3, na''])]"
         and files' = staff_only]
    by auto
qed

subsection \<open>C6: Path validation\<close>



subsection \<open>C7: Error boundary and status\<close>



lemma restore_example:
  "restore_from_file mem_bulk_write toy_dec backup batch_size ''mongodb://10.0.0.16:27017''
       ''copy'' ''/backup/shop'' (fresh empty_db) =
     (0, \<lparr>handle = empty_db(''users'' := [Atom (Integer 1) \<mapsto> Mapping (users ! 0),
                                          Atom (Integer 2) \<mapsto> Mapping (users ! 1)]),
          events = [Connect ''mongodb://10.0.0.16:27017'',
                    Log ''Restoring database copy from /backup/shop'',
                    Log ''Importing collection: users'',
                    BulkWrite ''users'' [ReplaceOne (Atom (Integer 1)) (Mapping (users ! 0)),
                                         ReplaceOne (Atom (Integer 2)) (Mapping (users ! 1))],
                    Log ''  Finished users with 2 documents.'',
                    Log ''Restore completed successfully.'']\<rparr>)"
  by (simp add: restore_from_file_def restore_from_file_body_def boundary_def backup_def Let_def
      suffix_to_prefix restore_file_def toy_dec_def users_def blank_def isspace_def upsert_op_def
      batch_size_def flush_rest_def bulk_write_def mem_bulk_write_def fresh_def log_def connect_def
      upsert_def empty_db_def str_nat.simps digit_def)

subsection \<open>C8: Connection descriptor\<close>




subsection \<open>C9: Flush contract\<close>

text \<open>
  C9. Writer flush contract, as the code has it. Flushing an empty pending set is a no-op:
  no batch, no message. Along a collection processed without an exception, each flush is
  followed at once by one message with the count reached: a threshold flush by
  \<open>Processed N documents (upserts)...\<close> (\<open>Imported N ...\<close> in \<open>restore_from_file\<close>), which
  does not name the collection, and the flush at the end of the stream by
  \<open>Finished <collection> with N documents.\<close>, which does. The counts are the multiples of
  the threshold, then the number of documents; a collection whose size is a multiple of the
  threshold, the empty one too, has no flush at its end and no \<open>Finished\<close> line.
\<close>

theorem flush_contract:
  "flush_rest bw coll_name [] count s = (None, s)
   \<and> (fst (clone_collection bw T coll_name cursor s) = None \<and> 0 < T \<longrightarrow>
        (\<exists>us. upserts (map Mapping cursor) us
           \<and> length (batches T us) = length (messages ''Processed'' T coll_name (length cursor))
           \<and> emitted s (snd (clone_collection bw T coll_name cursor s))
               = Log (''Cloning collection: '' @ coll_name)
                 # flushed coll_name (batches T us)
                     (messages ''Processed'' T coll_name (length cursor))))
   \<and> (fst (restore_file bw dec T filename f s) = None \<and> 0 < T \<longrightarrow>
        (\<exists>docs us. map dec (filter (\<lambda>line. \<not> blank line) f) = map Inr docs \<and> upserts docs us
           \<and> length (batches T us) = length (messages ''Imported'' T (coll_of filename) (length docs))
           \<and> emitted s (snd (restore_file bw dec T filename f s))
               = Log (''Importing collection: '' @ coll_of filename)
                 # flushed (coll_of filename) (batches T us)
                     (messages ''Imported'' T (coll_of filename) (length docs))))"
proof (intro conjI impI)
  show "flush_rest bw coll_name [] count s = (None, s)"
    by (simp add: flush_rest_def)
next
  assume a: "fst (clone_collection bw T coll_name cursor s) = None \<and> 0 < T"
  then have T: "0 < T" by simp
  from clone_collection_emitted [of bw T coll_name cursor s] a obtain us where
    us: "upserts (map Mapping cursor) us"
      "emitted s (snd (clone_collection bw T coll_name cursor s))
         = Log (''Cloning collection: '' @ coll_name) # collection_events ''Processed'' T coll_name us"
    by auto
  have len: "length us = length cursor" using upserts_length [OF us(1)] by simp
  show "\<exists>us. upserts (map Mapping cursor) us
           \<and> length (batches T us) = length (messages ''Processed'' T coll_name (length cursor))
           \<and> emitted s (snd (clone_collection bw T coll_name cursor s))
               = Log (''Cloning collection: '' @ coll_name)
                 # flushed coll_name (batches T us)
                     (messages ''Processed'' T coll_name (length cursor))"
    using us collection_events_flushed [OF T, of "''Processed''" coll_name us] len
    by (intro exI [of _ us]) simp
next
  assume a: "fst (restore_file bw dec T filename f s) = None \<and> 0 < T"
  then have T: "0 < T" by simp
  from restore_file_emitted [of bw dec T filename f s] a obtain docs us where
    us: "map dec (filter (\<lambda>l. \<not> blank l) f) = map Inr docs" "upserts docs us"
      "emitted s (snd (restore_file bw dec T filename f s))
         = Log (''Importing collection: '' @ coll_of filename)
           # collection_events ''Imported'' T (coll_of filename) us"
    by auto
  have len: "length us = length docs" using upserts_length [OF us(2)] by simp
  show "\<exists>docs us. map dec (filter (\<lambda>line. \<not> blank line) f) = map Inr docs \<and> upserts docs us
           \<and> length (batches T us) = length (messages ''Imported'' T (coll_of filename) (length docs))
           \<and> emitted s (snd (restore_file bw dec T filename f s))
               = Log (''Importing collection: '' @ coll_of filename)
                 # flushed (coll_of filename) (batches T us)
                     (messages ''Imported'' T (coll_of filename) (length docs))"
    using us collection_events_flushed [OF T, of "''Imported''" "coll_of filename" us] len
    by (intro exI [of _ docs] exI [of _ us]) simp
qed

theorem flush_contract_witness:
  "fst (clone_collection mem_bulk_write batch_size ''users'' (numbered 1000) (fresh empty_db)) = None
   \<and> 0 < batch_size
   \<and> (\<exists>us. upserts (map Mapping (numbered 1000)) us
        \<and> emitted (fresh empty_db)
            (snd (clone_collection mem_bulk_write batch_size ''users'' (numbered 1000) (fresh empty_db)))
          = Log (''Cloning collection: '' @ ''users'')
            # flushed ''users'' (batches batch_size us)
                (messages ''Processed'' batch_size ''users'' (length (numbered 1000))))
   \<and> fst (restore_file mem_bulk_write toy_dec batch_size ''users.json''
            [''{_id: 1, name: A}'', '' '', ''{_id: 2, name: B}''] (fresh empty_db)) = None"
proof -
  have T: "0 < batch_size" by (simp add: batch_size_def)
  have c: "fst (clone_collection mem_bulk_write batch_size ''users'' (numbered 1000) (fresh empty_db)) = None"
    by (rule numbered_cloned)
  have r: "fst (restore_file mem_bulk_write toy_dec batch_size ''users.json''
            [''{_id: 1, name: A}'', '' '', ''{_id: 2, name: B}''] (fresh empty_db)) = None"
    by (simp add: restore_file_def Let_def toy_dec_def users_def blank_def isspace_def
        upsert_op_def batch_size_def flush_rest_def bulk_write_def mem_bulk_write_def
        split: prod.splits)
  show ?thesis
    using T c r
      flush_contract [where bw = mem_bulk_write and T = batch_size and coll_name = "''users''"
        and cursor = "numbered 1000" and s = "fresh (empty_db :: scalar database)"
        and dec = toy_dec and filename = "''users.json''"
        and f = "[''{_id: 1, name: A}'', '' '', ''{_id: 2, name: B}'']" and count = 0]
    by blast
qed

text \<open>
  The claim as written fails at the threshold flush: a collection \<open>users\<close> of 1000 documents
  is flushed once, as one batch of 1000, and the one message that follows does not name it.
\<close>

theorem flush_message_counterexample:
  "fst (clone_collection mem_bulk_write batch_size ''users'' (numbered 1000) (fresh empty_db)) = None
   \<and> flush_sizes (emitted (fresh empty_db)
        (snd (clone_collection mem_bulk_write batch_size ''users'' (numbered 1000) (fresh empty_db))))
       = [1000]
   \<and> log_lines (emitted (fresh empty_db)
        (snd (clone_collection mem_bulk_write batch_size ''users'' (numbered 1000) (fresh empty_db))))
       = [''Cloning collection: users'', ''  Processed 1000 documents (upserts)...'']
   \<and> \<not> sublist ''users'' ''  Processed 1000 documents (upserts)...''"
proof -
  have T: "0 < batch_size" by (simp add: batch_size_def)
  have c: "fst (clone_collection mem_bulk_write batch_size ''users'' (numbered 1000) (fresh empty_db)) = None"
    by (rule numbered_cloned)
  from clone_collection_emitted [OF c T] obtain us where
    us: "upserts (map Mapping (numbered 1000)) us"
      "emitted (fresh empty_db)
         (snd (clone_collection mem_bulk_write batch_size ''users'' (numbered 1000) (fresh empty_db)))
         = Log (''Cloning collection: '' @ ''users'') # collection_events ''Processed'' batch_size ''users'' us"
    by blast
  have len: "length us = 1000" using upserts_length [OF us(1)] by simp
  have fs: "flush_sizes (emitted (fresh empty_db)
        (snd (clone_collection mem_bulk_write batch_size ''users'' (numbered 1000) (fresh empty_db))))
       = [1000]"
    using flush_sizes_collection [OF T, of _ "''Processed''" "''users''" us] us(2)
      batches_exact [OF T, of us] len
    by (simp add: batch_size_def)
  have ll: "log_lines (emitted (fresh empty_db)
        (snd (clone_collection mem_bulk_write batch_size ''users'' (numbered 1000) (fresh empty_db))))
       = [''Cloning collection: users'', ''  Processed 1000 documents (upserts)...'']"
    using log_lines_collection_events [OF T, of "''Processed''" "''users''" us] us(2) len
    by (simp add: batch_size_def progress_def str_nat.simps digit_def)
  have ns: "\<not> sublist ''users'' ''  Processed 1000 documents (upserts)...''"
    by (simp add: sublist_Cons_right)
  show ?thesis using c fs ll ns by simp
qed

subsection \<open>C10: Identity field\<close>

text \<open>
  C10. Every transferred document must carry \<open>_id\<close>: for a document without it the lookup
  raises \<open>KeyError\<close> (for a decoded line that is no mapping, \<open>TypeError\<close>), and a run of
  \<open>direct_clone\<close> that has such a document in a collection it transfers, or a run of
  \<open>restore_from_file\<close> that has such a line in a dump file, returns status 1, whatever the
  driver does. Nothing is skipped or given a key of its own: every operation of every
  batch handed to \<open>bulk_write\<close> is keyed by the \<open>_id\<close> its own document carries.
\<close>

theorem identity_field_required:
  "(source (clean_uri src_uri) src_db_name = Inr collections
      \<and> (coll_name, cursor) \<in> set collections \<and> \<not> prefix ''system.'' coll_name
      \<and> doc \<in> set cursor \<and> map_of doc ''_id'' = None
    \<longrightarrow> upsert_op (Mapping doc) = Inl (KeyError ''_id'')
        \<and> fst (direct_clone bw source T src_uri src_db_name dst_uri dst_db_name s) = 1)
   \<and> (files path = Some listdir \<and> (filename, f) \<in> set listdir \<and> suffix ''.json'' filename
      \<and> line \<in> set f \<and> \<not> blank line \<and> dec line = Inr v \<and> getitem v ''_id'' = Inl e
    \<longrightarrow> upsert_op v = Inl e
        \<and> fst (restore_from_file bw dec files T uri db_name path s) = 1)
   \<and> list_all (\<lambda>(c, b). list_all keyed b)
       (writes (emitted s (snd (direct_clone bw source T src_uri src_db_name dst_uri dst_db_name s))))
   \<and> list_all (\<lambda>(c, b). list_all keyed b)
       (writes (emitted s (snd (restore_from_file bw dec files T uri db_name path s))))"
proof (intro conjI impI)
  assume a: "source (clean_uri src_uri) src_db_name = Inr collections
      \<and> (coll_name, cursor) \<in> set collections \<and> \<not> prefix ''system.'' coll_name
      \<and> doc \<in> set cursor \<and> map_of doc ''_id'' = None"
  then show "upsert_op (Mapping doc) = Inl (KeyError ''_id'')"
    by (simp add: upsert_op_KeyError)
  show "fst (direct_clone bw source T src_uri src_db_name dst_uri dst_db_name s) = 1"
    using direct_clone_missing_id [of source src_uri src_db_name collections coll_name cursor doc bw T
        dst_uri dst_db_name s] a by simp
next
  assume a: "files path = Some listdir \<and> (filename, f) \<in> set listdir \<and> suffix ''.json'' filename
      \<and> line \<in> set f \<and> \<not> blank line \<and> dec line = Inr v \<and> getitem v ''_id'' = Inl e"
  then show "upsert_op v = Inl e" by (simp add: upsert_op_no_id)
  show "fst (restore_from_file bw dec files T uri db_name path s) = 1"
    using restore_from_file_bad_line [of files path listdir filename f line dec bw T uri db_name s] a
    by auto
next
  show "list_all (\<lambda>(c, b). list_all keyed b)
       (writes (emitted s (snd (direct_clone bw source T src_uri src_db_name dst_uri dst_db_name s))))"
    using direct_clone_replay [of bw source T src_uri src_db_name dst_uri dst_db_name s]
    by (auto simp: list_all_iff)
  show "list_all (\<lambda>(c, b). list_all keyed b)
       (writes (emitted s (snd (restore_from_file bw dec files T uri db_name path s))))"
    using restore_from_file_replay [of bw dec files T uri db_name path s]
    by (auto simp: list_all_iff)
qed

lemma direct_clone_anonymous:
  "direct_clone mem_bulk_write anonymous_shop batch_size ''mongodb://10.0.0.15.:27017'' ''shop''
       ''mongodb://10.0.0.16:27017'' ''copy'' (fresh empty_db) =
     (1, \<lparr>handle = empty_db,
          events = [Connect ''mongodb://10.0.0.15:27017'', Connect ''mongodb://10.0.0.16:27017'',
                    Log ''Starting direct clone from shop to copy'',
                    Log ''Cloning collection: users'',
                    Log [CHR ''E'', CHR ''R'', CHR ''R'', CHR ''O'', CHR ''R'', CHR '':'', CHR '' '',
                         CHR 0x27, CHR ''_'', CHR ''i'', CHR ''d'', CHR 0x27]]\<rparr>)"
  by (simp add: direct_clone_def direct_clone_body_def boundary_def anonymous_shop_def Let_def
      clone_collection_def users_def upsert_op_def batch_size_def fresh_def log_def connect_def)

theorem identity_field_required_witness:
  "anonymous_shop (clean_uri ''mongodb://10.0.0.15.:27017'') ''shop''
       = Inr [(''users'', [users ! 0, [(''name'', Atom (String ''C''))], users ! 1])]
   \<and> \<not> prefix ''system.'' ''users''
   \<and> map_of [(''name'', Atom (String ''C''))] ''_id'' = None
   \<and> fst (direct_clone mem_bulk_write anonymous_shop batch_size ''mongodb://10.0.0.15.:27017''
            ''shop'' ''mongodb://10.0.0.16:27017'' ''copy'' (fresh empty_db)) = 1
   \<and> backup ''/backup/anonymous'' = Some [(''users.json'', [''{_id: 1, name: A}'', ''{name: C}''])]
   \<and> suffix ''.json'' ''users.json'' \<and> \<not> blank ''{name: C}''
   \<and> toy_dec ''{name: C}'' = Inr (Mapping [(''name'', Atom (String ''C''))])
   \<and> getitem (Mapping [(''name'', Atom (String ''C''))]) ''_id'' = Inl (KeyError ''_id'')
   \<and> fst (restore_from_file mem_bulk_write toy_dec backup batch_size ''mongodb://10.0.0.16:27017''
            ''copy'' ''/backup/anonymous'' (fresh empty_db)) = 1"
proof -
  have h: "anonymous_shop (clean_uri ''mongodb://10.0.0.15.:27017'') ''shop''
       = Inr [(''users'', [users ! 0, [(''name'', Atom (String ''C''))], users ! 1])]"
    "\<not> prefix ''system.'' ''users''"
    "map_of [(''name'', Atom (String ''C''))] ''_id'' = None"
    "backup ''/backup/anonymous'' = Some [(''users.json'', [''{_id: 1, name: A}'', ''{name: C}''])]"
    "suffix ''.json'' ''users.json''" "\<not> blank ''{name: C}''"
    "toy_dec ''{name: C}'' = Inr (Mapping [(''name'', Atom (String ''C''))])"
    "getitem (Mapping [(''name'', Atom (String ''C''))]) ''_id'' = Inl (KeyError ''_id'')"
    by (simp_all add: anonymous_shop_def backup_def suffix_to_prefix blank_def isspace_def toy_dec_def)
  show ?thesis
    using h identity_field_required
      [where source = anonymous_shop and src_uri = "''mongodb://10.0.0.15.:27017''"
         and src_db_name = "''shop''"
         and collections = "[(''users'', [users ! 0, [(''name'', Atom (String ''C''))], users ! 1])]"
         and coll_name = "''users''"
         and cursor = "[users ! 0, [(''name'', Atom (String ''C''))], users ! 1]"
         and doc = "[(''name'', Atom (String ''C''))]"
         and bw = mem_bulk_write and T = batch_size and dst_uri = "''mongodb://10.0.0.16:27017''"
         and dst_db_name = "''copy''" and s = "fresh empty_db"
         and files = backup and path = "''/backup/anonymous''"
         and listdir = "[(''users.json'', [''{_id: 1, name: A}'', ''{name: C}''])]"
         and filename = "''users.json''" and f = "[''{_id: 1, name: A}'', ''{name: C}'']"
         and line = "''{name: C}''" and dec = toy_dec
         and v = "Mapping [(''name'', Atom (String ''C''))]" and e = "KeyError ''_id''"
         and uri = "''mongodb://10.0.0.16:27017''" and db_name = "''copy''"]
    by simp
qed

end
